theory Spec2Isabelle
  imports Main "HOL-Library.Sublist"
begin

section \<open>Bytes, C strings and the end-of-file value\<close>

text \<open>
  The preprocessor of \<^verbatim>\<open>mucgly_mod.c\<close> is byte oriented. A byte is a \<^typ>\<open>char\<close>
  (eight bits). The C code moves bytes through \<^verbatim>\<open>int\<close> variables, with
  \<^verbatim>\<open>EOF\<close> as an extra value, and through \<^verbatim>\<open>gchar\<close> (plain \<^verbatim>\<open>char\<close>)
  storage. Whether plain \<^verbatim>\<open>char\<close> is signed is left to the C implementation, so the
  conversion from a stored byte to \<^verbatim>\<open>int\<close> takes that choice as the Boolean
  \<open>sg\<close> (\<open>True\<close>: signed, as on x86; \<open>False\<close>: unsigned, as on ARM Linux).
  Line and column counters are C \<^verbatim>\<open>int\<close>s, modelled by \<^typ>\<open>int\<close>; no property below
  depends on their overflow.
\<close>

definition EOF :: int where
  "EOF = - 1"

definition gchar_to_int :: "bool \<Rightarrow> char \<Rightarrow> int" where
  \<comment> \<open>the value of an expression of type \<^verbatim>\<open>gchar\<close> used as an \<^verbatim>\<open>int\<close>\<close>
  "gchar_to_int sg c =
     (if sg \<and> 128 \<le> (of_char c :: int) then of_char c - 256 else of_char c)"

definition int_to_gchar :: "int \<Rightarrow> char" where
  \<comment> \<open>the conversion \<^verbatim>\<open>(char) c\<close>, also what \<^verbatim>\<open>fputc\<close> writes for \<open>c\<close>\<close>
  "int_to_gchar i = char_of i"

definition NUL :: char where
  "NUL = CHR 0x00"

definition cstr :: "char list \<Rightarrow> string" where
  \<comment> \<open>the C string that starts at the first byte of a buffer: the bytes before the
      first NUL\<close>
  "cstr s = takeWhile (\<lambda>c. c \<noteq> NUL) s"

definition strlen :: "char list \<Rightarrow> nat" where
  "strlen s = length (cstr s)"

definition g_strcmp0 :: "char list \<Rightarrow> char list \<Rightarrow> bool" where
  \<comment> \<open>\<open>True\<close> when \<^verbatim>\<open>g_strcmp0\<close> returns 0 on two non-NULL strings\<close>
  "g_strcmp0 s1 s2 = (cstr s1 = cstr s2)"

definition first_byte :: "char list \<Rightarrow> char" where
  \<comment> \<open>\<^verbatim>\<open>s[0]\<close>: the terminating NUL when the string is empty\<close>
  "first_byte s = (case s of [] \<Rightarrow> NUL | c # _ \<Rightarrow> c)"

section \<open>Process termination\<close>

text \<open>
  \<^verbatim>\<open>mucgly_error\<close> and \<^verbatim>\<open>mucgly_fatal\<close> print a diagnostic with the severity word
  \<^verbatim>\<open>error\<close> or \<^verbatim>\<open>fatal error\<close> and call \<^verbatim>\<open>exit( EXIT_FAILURE )\<close>;
  \<^verbatim>\<open>sf_multi_hook\<close> prints with \<^verbatim>\<open>g_print\<close> and exits the same way. A read or write
  through a NULL, freed or out-of-range pointer has no defined result in C; the model
  stops there with \<open>Invalid_access\<close>.
\<close>

datatype abort =
    Mucgly_error string
  | Mucgly_fatal string
  | Exit_failure string
  | Invalid_access

fun severity :: "abort \<Rightarrow> string option" where
  "severity (Mucgly_error m) = Some ''error''"
| "severity (Mucgly_fatal m) = Some ''fatal error''"
| "severity (Exit_failure m) = None"
| "severity Invalid_access = None"

fun exits_with_failure :: "abort \<Rightarrow> bool" where
  "exits_with_failure (Mucgly_error m) = True"
| "exits_with_failure (Mucgly_fatal m) = True"
| "exits_with_failure (Exit_failure m) = True"
| "exits_with_failure Invalid_access = False"

section \<open>Data model (\<^verbatim>\<open>mucgly_mod.h\<close>)\<close>

record hookpair =
  beg :: string
  hend :: string
  susp :: "string option"

text \<open>
  \<^verbatim>\<open>sf->multi\<close> is NULL, or points to the array of multi-hook pairs (its first
  \<^verbatim>\<open>multi_cnt\<close> entries are the list), or, after \<^verbatim>\<open>sf_set_hook\<close> has freed the array
  without resetting the pointer, it dangles with \<^verbatim>\<open>multi_cnt == 0\<close>.
\<close>

datatype multi_ptr = Multi_null | Multi_vec "hookpair list" | Multi_dangling

fun multi_cnt :: "multi_ptr \<Rightarrow> nat" where
  "multi_cnt Multi_null = 0"
| "multi_cnt (Multi_vec v) = length v"
| "multi_cnt Multi_dangling = 0"

definition MULTI_LIMIT :: nat where
  "MULTI_LIMIT = 128"

text \<open>
  A \<^verbatim>\<open>stackfile_t\<close>. The stream \<^verbatim>\<open>fh\<close> is the list of bytes not yet read from it;
  \<^verbatim>\<open>buf\<close> is the put-back buffer, whose last byte is read first. The table
  \<^verbatim>\<open>hook_1st_chars[256]\<close> has one entry per byte; an entry is \<open>True\<close> when the
  array holds 1 there.
\<close>

record stackfile =
  filename :: string
  fh :: "char list"
  buf :: "char list"
  lineno :: int
  column :: int
  old_column :: int
  macro :: bool
  macro_line :: int
  macro_col :: int
  eat_tail :: bool
  hook :: hookpair
  hookesc :: string
  eater :: "string option"
  multi :: multi_ptr
  curhook :: "hookpair list"
  hook_esc_eq_beg :: bool
  hook_esc_eq_end :: bool
  hook_1st_chars :: "char \<Rightarrow> bool"

text \<open>
  A \<^verbatim>\<open>filestack_t\<close> holds \<^verbatim>\<open>GList* file\<close>, a pointer into a doubly linked list.
  \<open>files\<close> lists the cells from that pointer along \<^verbatim>\<open>->next\<close> (its head is the top
  file); \<open>files_prev\<close> lists the cells along \<^verbatim>\<open>->prev\<close>, nearest first. Those are
  the files pushed by \<^verbatim>\<open>fs_push_file_delayed\<close> and not yet made current.
\<close>

record filestack =
  files :: "stackfile list"
  files_prev :: "stackfile list"

record outfile =
  ofilename :: string
  ofh :: "char list"
  olineno :: int
  blocked :: bool

record 'm pstate =
  fs :: filestack
  check_buf :: "char list"
  macro_buf :: "char list"
  match_buf :: "char list"
  in_macro :: int
  suspension :: int
  outputs :: "outfile list"
  flush :: bool
  post_push :: bool
  post_pop :: bool
  mrb :: 'm

datatype hook_t = hook_none | hook_end | hook_beg | hook_esc

section \<open>Reading and putting back bytes of one file\<close>

definition sf_mark_macro :: "stackfile \<Rightarrow> stackfile" where
  "sf_mark_macro sf = sf\<lparr>macro := True, macro_line := lineno sf, macro_col := column sf\<rparr>"

definition sf_unmark_macro :: "stackfile \<Rightarrow> stackfile" where
  "sf_unmark_macro sf = sf\<lparr>macro := False\<rparr>"

definition sf_fetch :: "bool \<Rightarrow> stackfile \<Rightarrow> int \<times> stackfile" where
  \<comment> \<open>\<^verbatim>\<open>sf_get\<close> from the label \<^verbatim>\<open>re_read\<close> to the position update\<close>
  "sf_fetch sg sf =
     (let (ret, sf1) =
        (if length (buf sf) > 0
         then (gchar_to_int sg (last (buf sf)), sf\<lparr>buf := butlast (buf sf)\<rparr>)
         else (case fh sf of
                 [] \<Rightarrow> (EOF, sf)
               | c # cs \<Rightarrow> (of_char c, sf\<lparr>fh := cs\<rparr>)))
      in if ret \<noteq> EOF
         then (if ret = 10
               then (ret, sf1\<lparr>old_column := column sf1, lineno := lineno sf1 + 1, column := 0\<rparr>)
               else (ret, sf1\<lparr>column := column sf1 + 1\<rparr>))
         else (ret, sf1))"

lemma eat_tail_sf_fetch: "eat_tail (snd (sf_fetch sg sf)) = eat_tail sf"
  by (simp add: sf_fetch_def Let_def split: list.splits)

function sf_get :: "bool \<Rightarrow> stackfile \<Rightarrow> int \<times> stackfile" where
  "sf_get sg sf =
     (case sf_fetch sg sf of (ret, sf1) \<Rightarrow>
        if eat_tail sf1
        then (if ret \<noteq> EOF
              then sf_get sg (sf1\<lparr>eat_tail := False\<rparr>)
              else (ret, sf1\<lparr>eat_tail := False\<rparr>))
        else (ret, sf1))"
  by pat_completeness auto
termination
proof (relation "measure (\<lambda>(sg, sf). if eat_tail sf then 1 else 0)")
  show "wf (measure (\<lambda>(sg, sf). if eat_tail sf then 1 else (0::nat)))"
    by simp
next
  fix sg sf ret sf1
  assume fetched: "(ret, sf1) = sf_fetch sg sf" and eats: "eat_tail sf1"
  have "eat_tail sf"
    using eat_tail_sf_fetch [of sg sf] fetched [symmetric] eats by simp
  then show "((sg, sf1\<lparr>eat_tail := False\<rparr>), (sg, sf)) \<in>
      measure (\<lambda>(sg, sf). if eat_tail sf then 1 else (0::nat))"
    by simp
qed

declare sf_get.simps [simp del]

definition sf_put :: "stackfile \<Rightarrow> char \<Rightarrow> stackfile" where
  "sf_put sf c =
     (let sf1 = (if c = CHR 0x0A
                 then sf\<lparr>lineno := lineno sf - 1, column := old_column sf, old_column := 0\<rparr>
                 else sf\<lparr>column := column sf - 1\<rparr>)
      in sf1\<lparr>buf := buf sf1 @ [c]\<rparr>)"

section \<open>Hook configuration of a file\<close>

text \<open>
  An assignment \<^verbatim>\<open>sf->hook_1st_chars[ s[0] ] = 1\<close> indexes the table with a
  \<^verbatim>\<open>gchar\<close>. A negative index (a byte from 0x80 up where plain \<^verbatim>\<open>char\<close> is signed)
  is outside the array.
\<close>

fun mark_1st_chars :: "bool \<Rightarrow> string list \<Rightarrow> (char \<Rightarrow> bool) \<Rightarrow> abort + (char \<Rightarrow> bool)" where
  "mark_1st_chars sg [] t = Inr t"
| "mark_1st_chars sg (s # ss) t =
     (if gchar_to_int sg (first_byte s) < 0 then Inl Invalid_access
      else mark_1st_chars sg ss (t(first_byte s := True)))"

definition sf_update_hook_cache :: "bool \<Rightarrow> stackfile \<Rightarrow> abort + stackfile" where
  "sf_update_hook_cache sg sf =
     (case multi sf of
        Multi_vec v \<Rightarrow>
          (if v = [] then Inl Invalid_access
           else
             let latest = last v;
                 sf1 = sf\<lparr>hook_esc_eq_beg := False, hook_esc_eq_end := False\<rparr>
             in (case mark_1st_chars sg
                        ([beg latest, hend latest] @
                         (case susp latest of None \<Rightarrow> [] | Some s \<Rightarrow> [s]) @
                         [hookesc sf1])
                        (hook_1st_chars sf1) of
                   Inl e \<Rightarrow> Inl e
                 | Inr t \<Rightarrow> Inr (sf1\<lparr>hook_1st_chars := t\<rparr>)))
      | Multi_dangling \<Rightarrow> Inl Invalid_access
      | Multi_null \<Rightarrow>
          (let sf1 = sf\<lparr>hook_esc_eq_beg := g_strcmp0 (hookesc sf) (beg (hook sf)),
                        hook_esc_eq_end := g_strcmp0 (hookesc sf) (hend (hook sf))\<rparr>
           in (case mark_1st_chars sg [beg (hook sf1), hend (hook sf1), hookesc sf1]
                      (\<lambda>c. False) of
                 Inl e \<Rightarrow> Inl e
               | Inr t \<Rightarrow> Inr (sf1\<lparr>hook_1st_chars := t\<rparr>))))"

text \<open>
  \<^verbatim>\<open>sf_set_hook\<close>. Leaving multi-hook mode frees the array of pairs and sets the count
  to 0, but the pointer \<^verbatim>\<open>sf->multi\<close> keeps its value.
\<close>

definition sf_set_hook :: "bool \<Rightarrow> stackfile \<Rightarrow> hook_t \<Rightarrow> string \<Rightarrow> abort + stackfile" where
  "sf_set_hook sg sf h val =
     (case (if multi sf \<noteq> Multi_null \<and> h \<noteq> hook_esc
            then (case multi sf of
                    Multi_dangling \<Rightarrow> Inl Invalid_access
                  | _ \<Rightarrow> Inr (sf\<lparr>multi := Multi_dangling\<rparr>))
            else Inr sf) of
        Inl e \<Rightarrow> Inl e
      | Inr sf1 \<Rightarrow>
          (case h of
             hook_beg \<Rightarrow> sf_update_hook_cache sg (sf1\<lparr>hook := (hook sf1)\<lparr>beg := cstr val\<rparr>\<rparr>)
           | hook_end \<Rightarrow> sf_update_hook_cache sg (sf1\<lparr>hook := (hook sf1)\<lparr>hend := cstr val\<rparr>\<rparr>)
           | hook_esc \<Rightarrow>
               (if gchar_to_int sg (first_byte (hookesc sf1)) < 0 then Inl Invalid_access
                else sf_update_hook_cache sg
                       (sf1\<lparr>hook_1st_chars := (hook_1st_chars sf1)(first_byte (hookesc sf1) := False),
                            hookesc := cstr val\<rparr>))
           | hook_none \<Rightarrow> sf_update_hook_cache sg sf1))"

definition sf_set_eater :: "stackfile \<Rightarrow> string option \<Rightarrow> stackfile" where
  "sf_set_eater sf val = sf\<lparr>eater := map_option cstr val\<rparr>"

definition sf_multi_hook ::
  "bool \<Rightarrow> stackfile \<Rightarrow> string \<Rightarrow> string \<Rightarrow> string option \<Rightarrow> abort + stackfile" where
  "sf_multi_hook sg sf b e s =
     (if g_strcmp0 (hookesc sf) b \<or> g_strcmp0 (hookesc sf) e
      then Inl (Exit_failure ''mucgly: Esc hook is not allowed to match multihooks'')
      else
        (case multi sf of
           Multi_dangling \<Rightarrow> Inl Invalid_access
         | _ \<Rightarrow>
           (let sf1 = (if multi sf = Multi_null
                       then sf\<lparr>multi := Multi_vec [], hook_1st_chars := (\<lambda>c. False)\<rparr>
                       else sf)
            in if multi_cnt (multi sf1) \<ge> MULTI_LIMIT - 1
               then Inl (Exit_failure ''mucgly: Too many multihooks, 127 allowed!'')
               else sf_update_hook_cache sg
                      (sf1\<lparr>multi :=
                         (case multi sf1 of
                            Multi_vec v \<Rightarrow>
                              Multi_vec (v @ [\<lparr>beg = cstr b, hend = cstr e, susp = map_option cstr s\<rparr>])
                          | m \<Rightarrow> m)\<rparr>))))"

text \<open>
  The delimiters a configuration has in use: in single mode the pair \<^verbatim>\<open>sf->hook\<close>, in
  multi mode every pair of the array with its suspension string, and the escape in both.
\<close>

definition active_delims :: "stackfile \<Rightarrow> string list" where
  "active_delims sf =
     (case multi sf of
        Multi_vec v \<Rightarrow>
          concat (map (\<lambda>p. [beg p, hend p] @ (case susp p of None \<Rightarrow> [] | Some s \<Rightarrow> [s])) v)
      | _ \<Rightarrow> [beg (hook sf), hend (hook sf)]) @ [hookesc sf]"

definition bitmap_complete :: "stackfile \<Rightarrow> bool" where
  "bitmap_complete sf = list_all (\<lambda>d. hook_1st_chars sf (first_byte d)) (active_delims sf)"

text \<open>The mutations of a hook configuration, and a sequence of them run in order.\<close>

datatype mutation =
    Set_hook hook_t string
  | Set_eater "string option"
  | Multi_hook string string "string option"

fun mutate :: "bool \<Rightarrow> stackfile \<Rightarrow> mutation \<Rightarrow> abort + stackfile" where
  "mutate sg sf (Set_hook h v) = sf_set_hook sg sf h v"
| "mutate sg sf (Set_eater v) = Inr (sf_set_eater sf v)"
| "mutate sg sf (Multi_hook b e s) = sf_multi_hook sg sf b e s"

fun mutate_all :: "bool \<Rightarrow> stackfile \<Rightarrow> mutation list \<Rightarrow> abort + stackfile" where
  "mutate_all sg sf [] = Inr sf"
| "mutate_all sg sf (m # ms) =
     (case mutate sg sf m of Inl e \<Rightarrow> Inl e | Inr sf1 \<Rightarrow> mutate_all sg sf1 ms)"

text \<open>
  \<^verbatim>\<open>sf_new\<close>. The environment supplies what \<^verbatim>\<open>g_fopen\<close> returns for a file name (the
  bytes of the file, or \<open>None\<close> for NULL) and the bytes of standard input. When the file
  cannot be opened the fatal message names the top file of \<^verbatim>\<open>ruby_ps\<close>;
  \<open>has_includer\<close> says whether there is one.
\<close>

fun sf_inherit_multi :: "bool \<Rightarrow> stackfile \<Rightarrow> hookpair list \<Rightarrow> abort + stackfile" where
  "sf_inherit_multi sg sf [] = Inr sf"
| "sf_inherit_multi sg sf (p # ps) =
     (case sf_multi_hook sg sf (beg p) (hend p) (susp p) of
        Inl e \<Rightarrow> Inl e
      | Inr sf1 \<Rightarrow> sf_inherit_multi sg sf1 ps)"

definition sf_new ::
  "bool \<Rightarrow> (string \<Rightarrow> char list option) \<Rightarrow> char list \<Rightarrow> bool \<Rightarrow> string option
     \<Rightarrow> stackfile option \<Rightarrow> abort + stackfile" where
  "sf_new sg fopen_r stdin_r has_includer name inherit =
     (case (case name of
              Some n \<Rightarrow> (case fopen_r n of
                           None \<Rightarrow> (if has_includer then Inl (Mucgly_fatal ''Can't open file'')
                                    else Inl Invalid_access)
                         | Some bytes \<Rightarrow> Inr (cstr n, bytes))
            | None \<Rightarrow> Inr (''<STDIN>'', stdin_r)) of
        Inl e \<Rightarrow> Inl e
      | Inr (fname, bytes) \<Rightarrow>
          (let sf = \<lparr>filename = fname, fh = bytes, buf = [], lineno = 0, column = 0,
                     old_column = 0, macro = False, macro_line = 0, macro_col = 0,
                     eat_tail = False,
                     hook = \<lparr>beg = [], hend = [], susp = None\<rparr>, hookesc = [],
                     eater = None, multi = Multi_null, curhook = [],
                     hook_esc_eq_beg = False, hook_esc_eq_end = False,
                     hook_1st_chars = (\<lambda>c. False)\<rparr>
           in (case inherit of
                 Some parent \<Rightarrow>
                   (case sf_update_hook_cache sg
                           (sf\<lparr>hook := hook parent, hookesc := hookesc parent\<rparr>) of
                      Inl e \<Rightarrow> Inl e
                    | Inr sf1 \<Rightarrow>
                        (case multi parent of
                           Multi_null \<Rightarrow> Inr sf1
                         | Multi_vec v \<Rightarrow> sf_inherit_multi sg sf1 v
                         | Multi_dangling \<Rightarrow> Inr sf1))
               | None \<Rightarrow>
                   sf_update_hook_cache sg
                     (sf\<lparr>hook := \<lparr>beg = ''-<'', hend = ''>-'', susp = None\<rparr>,
                         hookesc := [CHR 0x5C]\<rparr>))))"

section \<open>The stack of input files\<close>

definition fs_pop_file :: "filestack \<Rightarrow> abort + filestack" where
  \<comment> \<open>\<^verbatim>\<open>g_list_delete_link( fs->file, fs->file )\<close> leaves \<^verbatim>\<open>fs->file\<close> at the next
      cell; when there is none the pointer is NULL and no cell can be reached from it\<close>
  "fs_pop_file fk =
     (case files fk of
        [] \<Rightarrow> Inl Invalid_access
      | sf # rest \<Rightarrow>
          Inr (fk\<lparr>files := rest, files_prev := (if rest = [] then [] else files_prev fk)\<rparr>))"

definition fs_get :: "bool \<Rightarrow> filestack \<Rightarrow> int \<times> filestack" where
  "fs_get sg fk =
     (case files fk of
        sf # rest \<Rightarrow> (case sf_get sg sf of (ret, sf1) \<Rightarrow> (ret, fk\<lparr>files := sf1 # rest\<rparr>))
      | [] \<Rightarrow> (EOF, fk))"

text \<open>
  The \<^verbatim>\<open>while ( ret == EOF )\<close> loop of \<^verbatim>\<open>fs_get_one\<close>, entered with the value just read
  from the top file: each round pops one file.
\<close>

function fs_get_one_loop :: "bool \<Rightarrow> int \<Rightarrow> filestack \<Rightarrow> abort + int \<times> filestack" where
  "fs_get_one_loop sg ret fk =
     (if ret = EOF
      then (case fs_pop_file fk of
              Inl e \<Rightarrow> Inl e
            | Inr fk1 \<Rightarrow>
                if files fk1 = [] then Inr (EOF, fk1)
                else (case fs_get sg fk1 of (ret1, fk2) \<Rightarrow> fs_get_one_loop sg ret1 fk2))
      else Inr (ret, fk))"
  by pat_completeness auto
termination
  by (relation "measure (\<lambda>(sg, ret, fk). length (files fk))")
     (auto simp: fs_pop_file_def fs_get_def split: list.splits prod.splits if_splits)

declare fs_get_one_loop.simps [simp del]

definition fs_get_one :: "bool \<Rightarrow> filestack \<Rightarrow> abort + int \<times> filestack" where
  "fs_get_one sg fk =
     (if files fk \<noteq> []
      then (case fs_get sg fk of (ret, fk1) \<Rightarrow> fs_get_one_loop sg ret fk1)
      else Inr (EOF, fk))"

definition fs_put :: "filestack \<Rightarrow> char \<Rightarrow> abort + filestack" where
  "fs_put fk c =
     (case files fk of
        [] \<Rightarrow> Inl Invalid_access
      | sf # rest \<Rightarrow> Inr (fk\<lparr>files := sf_put sf c # rest\<rparr>))"

fun fs_get_n_loop :: "bool \<Rightarrow> filestack \<Rightarrow> nat \<Rightarrow> char list \<Rightarrow> char list \<times> filestack" where
  "fs_get_n_loop sg fk 0 ret = (ret, fk)"
| "fs_get_n_loop sg fk (Suc k) ret =
     (case fs_get sg fk of (c, fk1) \<Rightarrow>
        if c \<noteq> EOF then fs_get_n_loop sg fk1 k (ret @ [int_to_gchar c]) else (ret, fk1))"

definition fs_get_n :: "bool \<Rightarrow> filestack \<Rightarrow> nat \<Rightarrow> char list \<times> filestack" where
  \<comment> \<open>the storage passed as \<^verbatim>\<open>ret\<close> is reset to length 0 first\<close>
  "fs_get_n sg fk n = fs_get_n_loop sg fk n []"

text \<open>
  The loop \<^verbatim>\<open>for ( int i = n-1; i >= 0; i-- ) fs_put( fs, str[ i ] )\<close>; the third
  argument is \<open>i + 1\<close>.
\<close>

fun fs_put_n_loop :: "filestack \<Rightarrow> char list \<Rightarrow> nat \<Rightarrow> abort + filestack" where
  "fs_put_n_loop fk str 0 = Inr fk"
| "fs_put_n_loop fk str (Suc i) =
     (if i < length str
      then (case fs_put fk (str ! i) of
              Inl e \<Rightarrow> Inl e
            | Inr fk1 \<Rightarrow> fs_put_n_loop fk1 str i)
      else Inl Invalid_access)"

definition fs_put_n :: "filestack \<Rightarrow> char list \<Rightarrow> nat \<Rightarrow> abort + filestack" where
  "fs_put_n fk str n = fs_put_n_loop fk str (if n = 0 then strlen str else n)"

section \<open>The environment: files and the script interpreter\<close>

text \<open>
  The mruby interpreter is not part of this code. A script is run by \<^verbatim>\<open>mrb_load_string\<close>,
  which may call back into the parser state (the \<^verbatim>\<open>Mucgly\<close> module functions) before it
  returns: the environment gives, for a script text and a parser state, either the abort
  raised inside a callback, or the pending exception (its \<^verbatim>\<open>inspect\<close> text) if any, the
  result converted to a string, and the parser state the callbacks left.
\<close>

datatype 'm host_result =
    Host_abort abort "'m pstate"
  | Host_done "string option" string "'m pstate"

record 'm env =
  g_fopen :: "string \<Rightarrow> char list option"
  stdin_bytes :: "char list"
  stack_default :: "stackfile option"
  g_fopen_w :: "string \<Rightarrow> bool"
  mrb_load_string :: "string \<Rightarrow> 'm pstate \<Rightarrow> 'm host_result"

definition fs_push_file :: "bool \<Rightarrow> 'm env \<Rightarrow> filestack \<Rightarrow> string option \<Rightarrow> abort + filestack" where
  \<comment> \<open>\<^verbatim>\<open>g_list_prepend\<close> puts the new cell in front of the cell \<^verbatim>\<open>fs->file\<close> points to\<close>
  "fs_push_file sg ev fk name =
     (case sf_new sg (g_fopen ev) (stdin_bytes ev) (files fk \<noteq> []) name
             (case files fk of sf0 # rest \<Rightarrow> Some sf0 | [] \<Rightarrow> stack_default ev) of
        Inl e \<Rightarrow> Inl e
      | Inr sf \<Rightarrow> Inr (fk\<lparr>files := sf # files fk\<rparr>))"

definition fs_push_file_delayed ::
  "bool \<Rightarrow> 'm env \<Rightarrow> filestack \<Rightarrow> string option \<Rightarrow> abort + filestack" where
  \<comment> \<open>\<^verbatim>\<open>fs->file = fs->file->next\<close>: back to the former top, the new cell stays behind it\<close>
  "fs_push_file_delayed sg ev fk name =
     (case fs_push_file sg ev fk name of
        Inl e \<Rightarrow> Inl e
      | Inr fk1 \<Rightarrow>
          (case files fk1 of
             [] \<Rightarrow> Inl Invalid_access
           | sf # rest \<Rightarrow>
               Inr (fk1\<lparr>files := rest,
                        files_prev := (if rest = [] then [] else sf # files_prev fk1)\<rparr>)))"

section \<open>Output\<close>

definition ps_out :: "'m pstate \<Rightarrow> int \<Rightarrow> (abort \<times> 'm pstate) + 'm pstate" where
  "ps_out ps c =
     (case outputs ps of
        [] \<Rightarrow> Inl (Invalid_access, ps)
      | ofl # rest \<Rightarrow>
          if \<not> blocked ofl
          then Inr (ps\<lparr>outputs :=
                      ofl\<lparr>olineno := (if c = 10 then olineno ofl + 1 else olineno ofl),
                          ofh := ofh ofl @ [int_to_gchar c]\<rparr> # rest\<rparr>)
          else Inr ps)"

fun ps_out_chars :: "bool \<Rightarrow> 'm pstate \<Rightarrow> char list \<Rightarrow> (abort \<times> 'm pstate) + 'm pstate" where
  "ps_out_chars sg ps [] = Inr ps"
| "ps_out_chars sg ps (c # cs) =
     (case ps_out ps (gchar_to_int sg c) of
        Inl e \<Rightarrow> Inl e
      | Inr ps1 \<Rightarrow> ps_out_chars sg ps1 cs)"

definition ps_out_str :: "bool \<Rightarrow> 'm pstate \<Rightarrow> string option \<Rightarrow> (abort \<times> 'm pstate) + 'm pstate" where
  "ps_out_str sg ps str =
     (case str of None \<Rightarrow> Inr ps | Some s \<Rightarrow> ps_out_chars sg ps (cstr s))"

definition ps_block_output :: "'m pstate \<Rightarrow> (abort \<times> 'm pstate) + 'm pstate" where
  "ps_block_output ps =
     (case outputs ps of
        [] \<Rightarrow> Inl (Invalid_access, ps)
      | ofl # rest \<Rightarrow> Inr (ps\<lparr>outputs := ofl\<lparr>blocked := True\<rparr> # rest\<rparr>))"

definition ps_unblock_output :: "'m pstate \<Rightarrow> (abort \<times> 'm pstate) + 'm pstate" where
  "ps_unblock_output ps =
     (case outputs ps of
        [] \<Rightarrow> Inl (Invalid_access, ps)
      | ofl # rest \<Rightarrow> Inr (ps\<lparr>outputs := ofl\<lparr>blocked := False\<rparr> # rest\<rparr>))"

section \<open>Probing the input for a delimiter\<close>

definition ps_has_file :: "'m pstate \<Rightarrow> bool" where
  "ps_has_file ps = (files (fs ps) \<noteq> [])"

definition ps_check_hook :: "'m pstate \<Rightarrow> int \<Rightarrow> (abort \<times> 'm pstate) + bool" where
  \<comment> \<open>\<^verbatim>\<open>sf->hook_1st_chars[ c ]\<close> is inside the table for \<open>0 \<le> c < 256\<close> only\<close>
  "ps_check_hook ps c =
     (if c = EOF then Inr False
      else (case files (fs ps) of
              [] \<Rightarrow> Inl (Invalid_access, ps)
            | sf # rest \<Rightarrow>
                if 0 \<le> c \<and> c < 256 then Inr (hook_1st_chars sf (int_to_gchar c))
                else Inl (Invalid_access, ps)))"

definition ps_check ::
  "bool \<Rightarrow> 'm pstate \<Rightarrow> string \<Rightarrow> bool \<Rightarrow> (abort \<times> 'm pstate) + bool \<times> 'm pstate" where
  "ps_check sg ps match erase =
     (let ps1 = ps\<lparr>match_buf := cstr match\<rparr>;
          len = strlen match
      in case fs_get_n sg (fs ps1) len of (input, fk1) \<Rightarrow>
           let ps2 = ps1\<lparr>fs := fk1, check_buf := input\<rparr>
           in if length input = 0
              then (case fs_pop_file (fs ps2) of
                      Inl e \<Rightarrow> Inl (e, ps2)
                    | Inr fk2 \<Rightarrow> Inr (False, ps2\<lparr>fs := fk2\<rparr>))
              else
                let ret = g_strcmp0 input (match_buf ps2)
                in if \<not> ret \<or> \<not> erase
                   then (case fs_put_n (fs ps2) input (length input) of
                           Inl e \<Rightarrow> Inl (e, ps2)
                         | Inr fk2 \<Rightarrow> Inr (ret, ps2\<lparr>fs := fk2\<rparr>))
                   else Inr (ret, ps2))"

definition ps_check_hookesc ::
  "bool \<Rightarrow> 'm pstate \<Rightarrow> (abort \<times> 'm pstate) + bool \<times> 'm pstate" where
  "ps_check_hookesc sg ps =
     (case files (fs ps) of
        [] \<Rightarrow> Inr (False, ps)
      | sf # rest \<Rightarrow> ps_check sg ps (hookesc sf) True)"

definition ps_upd_topfile ::
  "'m pstate \<Rightarrow> (stackfile \<Rightarrow> abort + stackfile) \<Rightarrow> (abort \<times> 'm pstate) + 'm pstate" where
  \<comment> \<open>a call \<^verbatim>\<open>f( ps_topfile(ps), ... )\<close> that changes the top file in place\<close>
  "ps_upd_topfile ps f =
     (case files (fs ps) of
        [] \<Rightarrow> Inl (Invalid_access, ps)
      | sf # rest \<Rightarrow>
          (case f sf of
             Inl e \<Rightarrow> Inl (e, ps)
           | Inr sf1 \<Rightarrow> Inr (ps\<lparr>fs := (fs ps)\<lparr>files := sf1 # rest\<rparr>\<rparr>)))"

definition ps_push_curhook :: "stackfile \<Rightarrow> hookpair \<Rightarrow> stackfile" where
  "ps_push_curhook sf pair = sf\<lparr>curhook := pair # curhook sf\<rparr>"

definition ps_pop_curhook :: "stackfile \<Rightarrow> abort + stackfile" where
  "ps_pop_curhook sf =
     (case curhook sf of
        [] \<Rightarrow> Inl Invalid_access
      | h # hs \<Rightarrow> Inr (sf\<lparr>curhook := hs\<rparr>))"

definition ps_current_hook :: "'m pstate \<Rightarrow> (abort \<times> 'm pstate) + hookpair" where
  \<comment> \<open>\<^verbatim>\<open>ps_topfile(ps)->curhook->data\<close>\<close>
  "ps_current_hook ps =
     (case files (fs ps) of
        [] \<Rightarrow> Inl (Invalid_access, ps)
      | sf # rest \<Rightarrow>
          (case curhook sf of
             [] \<Rightarrow> Inl (Invalid_access, ps)
           | h # hs \<Rightarrow> Inr h))"

definition ps_current_hookbeg :: "'m pstate \<Rightarrow> (abort \<times> 'm pstate) + string" where
  "ps_current_hookbeg ps = map_sum id beg (ps_current_hook ps)"

definition ps_current_hookend :: "'m pstate \<Rightarrow> (abort \<times> 'm pstate) + string" where
  "ps_current_hookend ps = map_sum id hend (ps_current_hook ps)"

definition ps_current_hooksusp :: "'m pstate \<Rightarrow> (abort \<times> 'm pstate) + string option" where
  "ps_current_hooksusp ps = map_sum id susp (ps_current_hook ps)"

text \<open>
  The loop of \<^verbatim>\<open>ps_check_hookbeg\<close> over the multi-hook pairs. The pairs are those of the
  file that was on top when the loop started; after a probe that pops that file (an empty
  read) the loop test \<^verbatim>\<open>i < sf->multi_cnt\<close> reads freed memory.
\<close>

fun ps_check_multi_beg ::
  "bool \<Rightarrow> 'm pstate \<Rightarrow> hookpair list \<Rightarrow> (abort \<times> 'm pstate) + bool \<times> 'm pstate" where
  "ps_check_multi_beg sg ps [] = Inr (False, ps)"
| "ps_check_multi_beg sg ps (p # pairs) =
     (case ps_check sg ps (beg p) True of
        Inl e \<Rightarrow> Inl e
      | Inr (ret, ps1) \<Rightarrow>
          if ret
          then (case ps_upd_topfile ps1 (\<lambda>sf. Inr (ps_push_curhook sf p)) of
                  Inl e \<Rightarrow> Inl e
                | Inr ps2 \<Rightarrow> Inr (True, ps2))
          else if check_buf ps1 = [] then Inl (Invalid_access, ps1)
          else ps_check_multi_beg sg ps1 pairs)"

definition ps_check_hookbeg ::
  "bool \<Rightarrow> 'm pstate \<Rightarrow> (abort \<times> 'm pstate) + bool \<times> 'm pstate" where
  "ps_check_hookbeg sg ps =
     (case files (fs ps) of
        [] \<Rightarrow> Inr (False, ps)
      | sf # rest \<Rightarrow>
          (case multi sf of
             Multi_vec v \<Rightarrow> ps_check_multi_beg sg ps v
           | Multi_dangling \<Rightarrow> Inr (False, ps)
           | Multi_null \<Rightarrow>
               (case ps_check sg ps (beg (hook sf)) True of
                  Inl e \<Rightarrow> Inl e
                | Inr (ret, ps1) \<Rightarrow>
                    if ret
                    then (case ps_upd_topfile ps1 (\<lambda>sf1. Inr (ps_push_curhook sf1 (hook sf))) of
                            Inl e \<Rightarrow> Inl e
                          | Inr ps2 \<Rightarrow> Inr (True, ps2))
                    else Inr (False, ps1))))"

definition ps_check_hookend ::
  "bool \<Rightarrow> 'm pstate \<Rightarrow> (abort \<times> 'm pstate) + bool \<times> 'm pstate" where
  "ps_check_hookend sg ps =
     (if \<not> ps_has_file ps then Inr (False, ps)
      else (case ps_current_hookend ps of
              Inl e \<Rightarrow> Inl e
            | Inr e \<Rightarrow> ps_check sg ps e True))"

definition ps_check_hooksusp ::
  "bool \<Rightarrow> 'm pstate \<Rightarrow> (abort \<times> 'm pstate) + bool \<times> 'm pstate" where
  "ps_check_hooksusp sg ps =
     (if \<not> ps_has_file ps then Inr (False, ps)
      else (case ps_current_hooksusp ps of
              Inl e \<Rightarrow> Inl e
            | Inr (Some s) \<Rightarrow> ps_check sg ps s True
            | Inr None \<Rightarrow> Inr (False, ps)))"

definition ps_check_eater ::
  "bool \<Rightarrow> 'm pstate \<Rightarrow> (abort \<times> 'm pstate) + bool \<times> 'm pstate" where
  "ps_check_eater sg ps =
     (case files (fs ps) of
        [] \<Rightarrow> Inr (False, ps)
      | sf # rest \<Rightarrow>
          (case eater sf of
             Some e \<Rightarrow> ps_check sg ps e True
           | None \<Rightarrow> Inr (False, ps)))"

section \<open>Collecting and running a macro\<close>

definition ps_in :: "bool \<Rightarrow> 'm pstate \<Rightarrow> (abort \<times> 'm pstate) + int \<times> 'm pstate" where
  "ps_in sg ps =
     (case fs_get_one sg (fs ps) of
        Inl e \<Rightarrow> Inl (e, ps)
      | Inr (c, fk) \<Rightarrow> Inr (c, ps\<lparr>fs := fk\<rparr>))"

definition ps_put :: "'m pstate \<Rightarrow> int \<Rightarrow> (abort \<times> 'm pstate) + 'm pstate" where
  \<comment> \<open>the call \<^verbatim>\<open>fs_put( ps->fs, c )\<close> with an \<^verbatim>\<open>int\<close> argument\<close>
  "ps_put ps c =
     (case fs_put (fs ps) (int_to_gchar c) of
        Inl e \<Rightarrow> Inl (e, ps)
      | Inr fk \<Rightarrow> Inr (ps\<lparr>fs := fk\<rparr>))"

definition ps_start_collect :: "'m pstate \<Rightarrow> 'm pstate" where
  "ps_start_collect ps = ps\<lparr>macro_buf := []\<rparr>"

definition ps_collect :: "'m pstate \<Rightarrow> int \<Rightarrow> 'm pstate" where
  "ps_collect ps c = ps\<lparr>macro_buf := macro_buf ps @ [int_to_gchar c]\<rparr>"

definition ps_collect_str :: "'m pstate \<Rightarrow> string \<Rightarrow> 'm pstate" where
  "ps_collect_str ps str = ps\<lparr>macro_buf := macro_buf ps @ cstr str\<rparr>"

definition ps_enter_macro :: "'m pstate \<Rightarrow> (abort \<times> 'm pstate) + 'm pstate" where
  "ps_enter_macro ps =
     (case ps_upd_topfile (ps\<lparr>in_macro := in_macro ps + 1\<rparr>) (\<lambda>sf. Inr (sf_mark_macro sf)) of
        Inl e \<Rightarrow> Inl e
      | Inr ps1 \<Rightarrow> Inr (ps_start_collect ps1))"

definition ps_get_macro :: "'m pstate \<Rightarrow> (abort \<times> 'm pstate) + string \<times> 'm pstate" where
  \<comment> \<open>the result is a pointer into \<^verbatim>\<open>macro_buf\<close>, read as a C string\<close>
  "ps_get_macro ps =
     (if first_byte (macro_buf ps) = CHR ''+''
      then (case ps_upd_topfile ps (\<lambda>sf. Inr (sf\<lparr>eat_tail := True\<rparr>)) of
              Inl e \<Rightarrow> Inl e
            | Inr ps1 \<Rightarrow> Inr (cstr (tl (macro_buf ps1)), ps1))
      else Inr (cstr (macro_buf ps), ps))"

definition ps_current_file :: "'m pstate \<Rightarrow> stackfile option" where
  "ps_current_file ps = (case files (fs ps) of [] \<Rightarrow> None | sf # rest \<Rightarrow> Some sf)"

definition ps_eval_ruby_str ::
  "'m env \<Rightarrow> 'm pstate \<Rightarrow> string \<Rightarrow> bool \<Rightarrow> (abort \<times> 'm pstate) + string option \<times> 'm pstate" where
  "ps_eval_ruby_str ev ps str to_str =
     (case mrb_load_string ev str ps of
        Host_abort e ps1 \<Rightarrow> Inl (e, ps1)
      | Host_done (Some exc) r ps1 \<Rightarrow> Inl (Mucgly_error exc, ps1)
      | Host_done None r ps1 \<Rightarrow> Inr (if to_str then Some r else None, ps1))"

definition ps_load_ruby_file ::
  "'m env \<Rightarrow> 'm pstate \<Rightarrow> string \<Rightarrow> (abort \<times> 'm pstate) + 'm pstate" where
  \<comment> \<open>\<^verbatim>\<open>mrb_load_file\<close> runs the text of the file; a pending exception is not looked at\<close>
  "ps_load_ruby_file ev ps name =
     (case g_fopen ev name of
        None \<Rightarrow> Inr ps
      | Some bytes \<Rightarrow>
          (case mrb_load_string ev bytes ps of
             Host_abort e ps1 \<Rightarrow> Inl (e, ps1)
           | Host_done exc r ps1 \<Rightarrow> Inr ps1))"

definition len_str_cmp :: "string \<Rightarrow> string \<Rightarrow> nat" where
  "len_str_cmp str1 str2 = (if prefix str1 str2 then length str1 else 0)"

definition directive_arg :: "string \<Rightarrow> nat \<Rightarrow> string option" where
  \<comment> \<open>\<^verbatim>\<open>&cmd[ len+1 ]\<close>; when \<open>cmd\<close> is just the keyword this points behind the
      terminating NUL (\<open>None\<close>)\<close>
  "directive_arg cmd len = (if len < length cmd then Some (drop (len + 1) cmd) else None)"

definition g_strsplit2 :: "string \<Rightarrow> string list" where
  \<comment> \<open>\<^verbatim>\<open>g_strsplit( s, " ", 2 )\<close>: no piece for the empty string, else at most two
      pieces, cut at the first space\<close>
  "g_strsplit2 str =
     (if str = [] then []
      else if CHR '' '' \<in> set str
      then [takeWhile (\<lambda>c. c \<noteq> CHR '' '') str, tl (dropWhile (\<lambda>c. c \<noteq> CHR '' '') str)]
      else [str])"

fun sf_set_hooks :: "bool \<Rightarrow> stackfile \<Rightarrow> (hook_t \<times> string) list \<Rightarrow> abort + stackfile" where
  \<comment> \<open>consecutive calls of \<^verbatim>\<open>sf_set_hook\<close> on one file\<close>
  "sf_set_hooks sg sf [] = Inr sf"
| "sf_set_hooks sg sf ((h, v) # hvs) =
     (case sf_set_hook sg sf h v of Inl e \<Rightarrow> Inl e | Inr sf1 \<Rightarrow> sf_set_hooks sg sf1 hvs)"

definition ps_internal_cmd ::
  "bool \<Rightarrow> 'm env \<Rightarrow> 'm pstate \<Rightarrow> string \<Rightarrow> (abort \<times> 'm pstate) + bool \<times> 'm pstate" where
  \<comment> \<open>the branch \<^verbatim>\<open>cmd[0] == ':'\<close> of \<^verbatim>\<open>ps_eval_cmd\<close>, tests in the order of the source\<close>
  "ps_internal_cmd sg ev ps cmd =
     (let with_arg = (\<lambda>key f. case directive_arg cmd (length key) of
                                 None \<Rightarrow> Inl (Invalid_access, ps)
                               | Some a \<Rightarrow> f a);
          continue = (\<lambda>r. case r of Inl e \<Rightarrow> Inl e | Inr ps1 \<Rightarrow> Inr (False, ps1));
          set_hooks = (\<lambda>hvs. continue (ps_upd_topfile ps (\<lambda>sf. sf_set_hooks sg sf hvs)))
      in if len_str_cmp '':hookbeg'' cmd \<noteq> 0
         then with_arg '':hookbeg'' (\<lambda>a. set_hooks [(hook_beg, a)])
         else if len_str_cmp '':hookend'' cmd \<noteq> 0
         then with_arg '':hookend'' (\<lambda>a. set_hooks [(hook_end, a)])
         else if len_str_cmp '':hookesc'' cmd \<noteq> 0
         then with_arg '':hookesc'' (\<lambda>a. set_hooks [(hook_esc, a)])
         else if len_str_cmp '':eater'' cmd \<noteq> 0
         then with_arg '':eater''
                (\<lambda>a. continue (ps_upd_topfile ps (\<lambda>sf. Inr (sf_set_eater sf (Some a)))))
         else if len_str_cmp '':hookall'' cmd \<noteq> 0
         then with_arg '':hookall''
                (\<lambda>a. set_hooks [(hook_beg, a), (hook_end, a), (hook_esc, a)])
         else if len_str_cmp '':hook'' cmd \<noteq> 0
         then with_arg '':hook''
                (\<lambda>a. case g_strsplit2 a of
                        [] \<Rightarrow> Inl (Invalid_access, ps)
                      | [p0, p1] \<Rightarrow> set_hooks [(hook_beg, p0), (hook_end, p1)]
                      | p0 # _ \<Rightarrow> set_hooks [(hook_beg, p0), (hook_end, p0)])
         else if len_str_cmp '':include'' cmd \<noteq> 0
         then with_arg '':include''
                (\<lambda>a. case fs_push_file_delayed sg ev (fs ps) (Some a) of
                        Inl e \<Rightarrow> Inl (e, ps)
                      | Inr fk \<Rightarrow> Inr (False, ps\<lparr>fs := fk, post_push := True\<rparr>))
         else if len_str_cmp '':source'' cmd \<noteq> 0
         then with_arg '':source'' (\<lambda>a. continue (ps_load_ruby_file ev ps a))
         else if len_str_cmp '':block'' cmd \<noteq> 0
         then continue (ps_block_output ps)
         else if len_str_cmp '':unblock'' cmd \<noteq> 0
         then continue (ps_unblock_output ps)
         else if len_str_cmp '':comment'' cmd \<noteq> 0
         then Inr (False, ps)
         else if len_str_cmp '':exit'' cmd \<noteq> 0
         then Inr (True, ps)
         else (case files (fs ps) of
                 [] \<Rightarrow> Inl (Invalid_access, ps)
               | sf # rest \<Rightarrow> Inl (Mucgly_error ''Unknown internal command'', ps)))"

text \<open>A sequence of \<^verbatim>\<open>ps_out_str\<close> calls, stopping at the first abort.\<close>

fun ps_out_strs ::
  "bool \<Rightarrow> 'm pstate \<Rightarrow> string option list \<Rightarrow> (abort \<times> 'm pstate) + 'm pstate" where
  "ps_out_strs sg ps [] = Inr ps"
| "ps_out_strs sg ps (x # xs) =
     (case ps_out_str sg ps x of Inl e \<Rightarrow> Inl e | Inr ps1 \<Rightarrow> ps_out_strs sg ps1 xs)"

definition ps_dispatch ::
  "bool \<Rightarrow> 'm env \<Rightarrow> 'm pstate \<Rightarrow> string \<Rightarrow> (abort \<times> 'm pstate) + bool \<times> 'm pstate" where
  \<comment> \<open>\<^verbatim>\<open>ps_eval_cmd\<close> after \<^verbatim>\<open>cmd = ps_get_macro( ps )\<close>\<close>
  "ps_dispatch sg ev ps cmd =
     (if first_byte cmd = CHR '':'' then ps_internal_cmd sg ev ps cmd
      else if first_byte cmd = CHR ''.''
      then (case ps_eval_ruby_str ev ps (tl cmd) True of
              Inl e \<Rightarrow> Inl e
            | Inr (r, ps1) \<Rightarrow>
                (case ps_out_str sg ps1 r of
                   Inl e \<Rightarrow> Inl e
                 | Inr ps2 \<Rightarrow> Inr (False, ps2)))
      else if first_byte cmd = CHR ''/'' then Inr (False, ps)
      else if first_byte cmd = CHR ''#''
      then (case ps_current_hook ps of
              Inl e \<Rightarrow> Inl e
            | Inr h \<Rightarrow>
                (case ps_out_strs sg ps [Some (beg h), Some (tl cmd), Some (hend h)] of
                   Inl e \<Rightarrow> Inl e
                 | Inr ps1 \<Rightarrow> Inr (False, ps1)))
      else (case ps_eval_ruby_str ev ps cmd False of
              Inl e \<Rightarrow> Inl e
            | Inr (r, ps1) \<Rightarrow> Inr (False, ps1)))"

definition ps_eval_cmd ::
  "bool \<Rightarrow> 'm env \<Rightarrow> 'm pstate \<Rightarrow> (abort \<times> 'm pstate) + bool \<times> 'm pstate" where
  "ps_eval_cmd sg ev ps =
     (case ps_get_macro ps of
        Inl e \<Rightarrow> Inl e
      | Inr (cmd, ps1) \<Rightarrow> ps_dispatch sg ev ps1 cmd)"

text \<open>
  The deferred flags at the end of \<^verbatim>\<open>ps_process_hook_end_seq\<close>.
  \<^verbatim>\<open>ps->fs->file = ps->fs->file->prev\<close> makes the nearest cell behind the pointer the
  top file; with no such cell the pointer becomes NULL.
\<close>

definition ps_apply_post :: "'m pstate \<Rightarrow> (abort \<times> 'm pstate) + 'm pstate" where
  "ps_apply_post ps =
     (case (if post_push ps
            then (let ps1 = ps\<lparr>post_push := False\<rparr>
                  in case files (fs ps1) of
                       [] \<Rightarrow> Inl (Invalid_access, ps1)
                     | cur \<Rightarrow>
                         (case files_prev (fs ps1) of
                            [] \<Rightarrow> Inr (ps1\<lparr>fs := (fs ps1)\<lparr>files := [], files_prev := []\<rparr>\<rparr>)
                          | p # prev \<Rightarrow>
                              Inr (ps1\<lparr>fs := (fs ps1)\<lparr>files := p # cur, files_prev := prev\<rparr>\<rparr>)))
            else Inr ps) of
        Inl e \<Rightarrow> Inl e
      | Inr ps2 \<Rightarrow>
          if post_pop ps2
          then (let ps3 = ps2\<lparr>post_pop := False\<rparr>
                in case fs_pop_file (fs ps3) of
                     Inl e \<Rightarrow> Inl (e, ps3)
                   | Inr fk \<Rightarrow> Inr (ps3\<lparr>fs := fk\<rparr>))
          else Inr ps2)"

definition ps_process_hook_end_seq ::
  "bool \<Rightarrow> 'm env \<Rightarrow> 'm pstate \<Rightarrow> (abort \<times> 'm pstate) + bool \<times> 'm pstate" where
  "ps_process_hook_end_seq sg ev ps =
     (let ps1 = ps\<lparr>in_macro := in_macro ps - 1\<rparr>
      in if in_macro ps1 < 0
         then (case files (fs ps1) of
                 [] \<Rightarrow> Inl (Invalid_access, ps1)
               | sf # rest \<Rightarrow> Inl (Mucgly_fatal ''Internal error in macro status...'', ps1))
         else if in_macro ps1 \<noteq> 0
         then (case ps_current_hookend ps1 of
                 Inl e \<Rightarrow> Inl e
               | Inr e \<Rightarrow>
                   (case ps_out_str sg ps1 (Some e) of
                      Inl e \<Rightarrow> Inl e
                    | Inr ps2 \<Rightarrow>
                        (case ps_upd_topfile ps2 ps_pop_curhook of
                           Inl e \<Rightarrow> Inl e
                         | Inr ps3 \<Rightarrow> Inr (False, ps3))))
         else (case ps_eval_cmd sg ev ps1 of
                 Inl e \<Rightarrow> Inl e
               | Inr (do_break, ps2) \<Rightarrow>
                   (case ps_upd_topfile ps2 (\<lambda>sf. Inr (sf_unmark_macro sf)) of
                      Inl e \<Rightarrow> Inl e
                    | Inr ps3 \<Rightarrow>
                        (case ps_upd_topfile ps3 ps_pop_curhook of
                           Inl e \<Rightarrow> Inl e
                         | Inr ps4 \<Rightarrow>
                             (case ps_apply_post ps4 of
                                Inl e \<Rightarrow> Inl e
                              | Inr ps5 \<Rightarrow> Inr (do_break, ps5))))))"

definition ps_process_non_hook_seq ::
  "'m pstate \<Rightarrow> int \<Rightarrow> (abort \<times> 'm pstate) + bool \<times> 'm pstate" where
  "ps_process_non_hook_seq ps c =
     (if in_macro ps \<noteq> 0
      then (if c = EOF then Inl (Mucgly_error ''Got EOF within macro!'', ps)
            else Inr (False, ps_collect ps c))
      else (if c = EOF then Inr (True, ps)
            else (case ps_out ps c of
                    Inl e \<Rightarrow> Inl e
                  | Inr ps1 \<Rightarrow> Inr (False, ps1))))"

section \<open>The main loop of \<^verbatim>\<open>ps_process_file\<close>\<close>

text \<open>
  One round of the \<^verbatim>\<open>for (;;)\<close> loop is \<open>ps_step\<close>; its Boolean result says whether the
  loop is left by \<^verbatim>\<open>break\<close>. The parts of the round are named after the branch they
  model. A byte other than \<^verbatim>\<open>EOF\<close> was read from the top file, so the top file exists
  where the source writes \<^verbatim>\<open>ps_topfile(ps)\<close> after such a read.
\<close>

definition ps_eater_seq ::
  "bool \<Rightarrow> 'm pstate \<Rightarrow> int \<Rightarrow> ('m pstate \<Rightarrow> (abort \<times> 'm pstate) + 'm pstate)
     \<Rightarrow> (abort \<times> 'm pstate) + bool \<times> 'm pstate" where
  \<comment> \<open>\<^verbatim>\<open>fs_put( ps->fs, c ); if ( ps_check_eater( ps ) ) ps_in( ps ); else ...\<close>\<close>
  "ps_eater_seq sg ps c otherwise =
     (case ps_put ps c of
        Inl e \<Rightarrow> Inl e
      | Inr ps1 \<Rightarrow>
          (case ps_check_eater sg ps1 of
             Inl e \<Rightarrow> Inl e
           | Inr (eaten, ps2) \<Rightarrow>
               if eaten
               then (case ps_in sg ps2 of
                       Inl e \<Rightarrow> Inl e
                     | Inr (c1, ps3) \<Rightarrow> Inr (False, ps3))
               else (case otherwise ps2 of
                       Inl e \<Rightarrow> Inl e
                     | Inr ps3 \<Rightarrow> Inr (False, ps3))))"

definition eater_starts_with :: "bool \<Rightarrow> stackfile \<Rightarrow> int \<Rightarrow> bool" where
  \<comment> \<open>\<^verbatim>\<open>ps_topfile(ps)->eater && ps_topfile(ps)->eater[0] == c\<close>\<close>
  "eater_starts_with sg sf c =
     (case eater sf of None \<Rightarrow> False | Some e \<Rightarrow> gchar_to_int sg (first_byte e) = c)"

definition ps_escape_in_macro ::
  "bool \<Rightarrow> 'm env \<Rightarrow> 'm pstate \<Rightarrow> (abort \<times> 'm pstate) + bool \<times> 'm pstate" where
  "ps_escape_in_macro sg ev ps =
     (case ps_in sg ps of
        Inl e \<Rightarrow> Inl e
      | Inr (c, ps1) \<Rightarrow>
          if c = EOF then Inl (Mucgly_error ''Got EOF within macro!'', ps1)
          else (case files (fs ps1) of
                  [] \<Rightarrow> Inl (Invalid_access, ps1)
                | sf # rest \<Rightarrow>
                    if (c = 32 \<or> c = 10) \<and> hook_esc_eq_end sf
                    then ps_process_hook_end_seq sg ev ps1
                    else if eater_starts_with sg sf c
                    then ps_eater_seq sg ps1 c (\<lambda>ps2. Inr (ps_collect ps2 c))
                    else Inr (False, ps_collect ps1 c)))"

definition ps_escape_out_macro ::
  "bool \<Rightarrow> 'm pstate \<Rightarrow> (abort \<times> 'm pstate) + bool \<times> 'm pstate" where
  "ps_escape_out_macro sg ps =
     (case ps_in sg ps of
        Inl e \<Rightarrow> Inl e
      | Inr (c, ps1) \<Rightarrow>
          if c = EOF then Inr (True, ps1)
          else (case files (fs ps1) of
                  [] \<Rightarrow> Inl (Invalid_access, ps1)
                | sf # rest \<Rightarrow>
                    if eater_starts_with sg sf c
                    then ps_eater_seq sg ps1 c (\<lambda>ps2. ps_out ps2 c)
                    else if int_to_gchar c = CHR 0x0A \<or> int_to_gchar c = CHR '' ''
                    then Inr (False, ps1)
                    else if hook_esc_eq_beg sf
                    then (if hookesc sf = [] then Inl (Invalid_access, ps1)
                          else if length (hookesc sf) = 1
                                  \<and> c = gchar_to_int sg (first_byte (hookesc sf))
                          then (case ps_out ps1 c of
                                  Inl e \<Rightarrow> Inl e
                                | Inr ps2 \<Rightarrow> Inr (False, ps2))
                          else (case ps_put ps1 c of
                                  Inl e \<Rightarrow> Inl e
                                | Inr ps2 \<Rightarrow>
                                    (case ps_upd_topfile ps2
                                            (\<lambda>sf1. Inr (ps_push_curhook sf1 (hook sf1))) of
                                       Inl e \<Rightarrow> Inl e
                                     | Inr ps3 \<Rightarrow>
                                         (case ps_enter_macro ps3 of
                                            Inl e \<Rightarrow> Inl e
                                          | Inr ps4 \<Rightarrow> Inr (False, ps4)))))
                    else (case ps_out ps1 c of
                            Inl e \<Rightarrow> Inl e
                          | Inr ps2 \<Rightarrow> Inr (False, ps2))))"

definition ps_hookbeg_seq ::
  "bool \<Rightarrow> 'm pstate \<Rightarrow> (abort \<times> 'm pstate) + bool \<times> 'm pstate" where
  \<comment> \<open>the last two branches: a hook-begin, or a byte that starts no hook after all\<close>
  "ps_hookbeg_seq sg ps =
     (case ps_check_hookbeg sg ps of
        Inl e \<Rightarrow> Inl e
      | Inr (matched, ps1) \<Rightarrow>
          if matched
          then (if in_macro ps1 \<noteq> 0
                then (let ps2 = ps1\<lparr>in_macro := in_macro ps1 + 1\<rparr>
                      in case ps_current_hookbeg ps2 of
                           Inl e \<Rightarrow> Inl e
                         | Inr b \<Rightarrow>
                             (case ps_out_str sg ps2 (Some b) of
                                Inl e \<Rightarrow> Inl e
                              | Inr ps3 \<Rightarrow> Inr (False, ps3)))
                else (case ps_enter_macro ps1 of
                        Inl e \<Rightarrow> Inl e
                      | Inr ps2 \<Rightarrow> Inr (False, ps2)))
          else (case ps_in sg ps1 of
                  Inl e \<Rightarrow> Inl e
                | Inr (c, ps2) \<Rightarrow> ps_process_non_hook_seq ps2 c))"

definition ps_hookend_seq ::
  "bool \<Rightarrow> 'm env \<Rightarrow> 'm pstate \<Rightarrow> (abort \<times> 'm pstate) + bool \<times> 'm pstate" where
  \<comment> \<open>from \<^verbatim>\<open>else if ( ps->in_macro && ps_check_hookend( ps ) )\<close> on\<close>
  "ps_hookend_seq sg ev ps =
     (case (if in_macro ps \<noteq> 0 then ps_check_hookend sg ps else Inr (False, ps)) of
        Inl e \<Rightarrow> Inl e
      | Inr (matched, ps1) \<Rightarrow>
          if matched
          then (if suspension ps1 = 0 then ps_process_hook_end_seq sg ev ps1
                else (let ps2 = ps1\<lparr>suspension := suspension ps1 - 1\<rparr>
                      in case ps_current_hookend ps2 of
                           Inl e \<Rightarrow> Inl e
                         | Inr e \<Rightarrow> Inr (False, ps_collect_str ps2 e)))
          else ps_hookbeg_seq sg ps1)"

definition ps_hooksusp_seq ::
  "bool \<Rightarrow> 'm env \<Rightarrow> 'm pstate \<Rightarrow> (abort \<times> 'm pstate) + bool \<times> 'm pstate" where
  \<comment> \<open>from \<^verbatim>\<open>else if ( ps->in_macro && ps_check_hooksusp( ps ) )\<close> on\<close>
  "ps_hooksusp_seq sg ev ps =
     (case (if in_macro ps \<noteq> 0 then ps_check_hooksusp sg ps else Inr (False, ps)) of
        Inl e \<Rightarrow> Inl e
      | Inr (matched, ps1) \<Rightarrow>
          if matched
          then (let ps2 = ps1\<lparr>suspension := suspension ps1 + 1\<rparr>
                in case ps_current_hooksusp ps2 of
                     Inl e \<Rightarrow> Inl e
                   | Inr None \<Rightarrow> Inr (False, ps2)
                   | Inr (Some s) \<Rightarrow> Inr (False, ps_collect_str ps2 s))
          else ps_hookend_seq sg ev ps1)"

definition ps_step ::
  "bool \<Rightarrow> 'm env \<Rightarrow> 'm pstate \<Rightarrow> (abort \<times> 'm pstate) + bool \<times> 'm pstate" where
  "ps_step sg ev ps =
     (case ps_in sg ps of
        Inl e \<Rightarrow> Inl e
      | Inr (c, ps1) \<Rightarrow>
          (case ps_check_hook ps1 c of
             Inl e \<Rightarrow> Inl e
           | Inr hit \<Rightarrow>
               if hit
               then (case ps_put ps1 c of
                       Inl e \<Rightarrow> Inl e
                     | Inr ps2 \<Rightarrow>
                         (case ps_check_hookesc sg ps2 of
                            Inl e \<Rightarrow> Inl e
                          | Inr (escaped, ps3) \<Rightarrow>
                              if escaped
                              then (if in_macro ps3 \<noteq> 0 then ps_escape_in_macro sg ev ps3
                                    else ps_escape_out_macro sg ps3)
                              else ps_hooksusp_seq sg ev ps3))
               else ps_process_non_hook_seq ps1 c))"

text \<open>
  The loop itself need not end (an included file may include itself), so it runs on fuel:
  \<open>None\<close> when the given number of rounds did not reach a \<^verbatim>\<open>break\<close> or an abort.
\<close>

fun ps_loop ::
  "nat \<Rightarrow> bool \<Rightarrow> 'm env \<Rightarrow> 'm pstate \<Rightarrow> ((abort \<times> 'm pstate) + 'm pstate) option" where
  "ps_loop 0 sg ev ps = None"
| "ps_loop (Suc n) sg ev ps =
     (case ps_step sg ev ps of
        Inl e \<Rightarrow> Some (Inl e)
      | Inr (do_break, ps1) \<Rightarrow> if do_break then Some (Inr ps1) else ps_loop n sg ev ps1)"

definition outfile_new :: "'m env \<Rightarrow> bool \<Rightarrow> string option \<Rightarrow> abort + outfile" where
  "outfile_new ev has_includer name =
     (case name of
        Some n \<Rightarrow>
          if g_fopen_w ev n
          then Inr \<lparr>ofilename = cstr n, ofh = [], olineno = 0, blocked = False\<rparr>
          else if has_includer then Inl (Mucgly_fatal ''Can't open file'')
          else Inl Invalid_access
      | None \<Rightarrow> Inr \<lparr>ofilename = ''<STDOUT>'', ofh = [], olineno = 0, blocked = False\<rparr>)"

definition ps_push_file :: "'m env \<Rightarrow> 'm pstate \<Rightarrow> string option \<Rightarrow> (abort \<times> 'm pstate) + 'm pstate" where
  "ps_push_file ev ps name =
     (case outfile_new ev (ps_has_file ps) name of
        Inl e \<Rightarrow> Inl (e, ps)
      | Inr ofl \<Rightarrow> Inr (ps\<lparr>outputs := ofl # outputs ps\<rparr>))"

definition ps_pop_file :: "'m pstate \<Rightarrow> (abort \<times> 'm pstate) + 'm pstate" where
  "ps_pop_file ps =
     (case outputs ps of
        [] \<Rightarrow> Inl (Invalid_access, ps)
      | ofl # rest \<Rightarrow> Inr (ps\<lparr>outputs := rest\<rparr>))"

definition ps_process_file ::
  "nat \<Rightarrow> bool \<Rightarrow> 'm env \<Rightarrow> 'm pstate \<Rightarrow> string option \<Rightarrow> string option
     \<Rightarrow> ((abort \<times> 'm pstate) + 'm pstate) option" where
  "ps_process_file fuel sg ev ps infile outfile =
     (case fs_push_file sg ev (fs ps) infile of
        Inl e \<Rightarrow> Some (Inl (e, ps))
      | Inr fk \<Rightarrow>
          (case (case outfile of
                   None \<Rightarrow> Inr (ps\<lparr>fs := fk\<rparr>)
                 | Some n \<Rightarrow> ps_push_file ev (ps\<lparr>fs := fk\<rparr>) (Some n)) of
             Inl e \<Rightarrow> Some (Inl e)
           | Inr ps1 \<Rightarrow>
               (case ps_loop fuel sg ev ps1 of
                  None \<Rightarrow> None
                | Some (Inl e) \<Rightarrow> Some (Inl e)
                | Some (Inr ps2) \<Rightarrow>
                    (case outfile of
                       None \<Rightarrow> Some (Inr ps2)
                     | Some n \<Rightarrow> Some (ps_pop_file ps2)))))"

section \<open>What a file still has to deliver\<close>

text \<open>
  The bytes a file holds in reading order are its put-back buffer, last byte first, and
  then the unread part of its stream. With \<^verbatim>\<open>eat_tail\<close> set the first of them will be
  discarded by the next \<^verbatim>\<open>sf_get\<close>, so \<open>pending\<close> leaves it out. \<open>sf_cfg\<close> is the file
  without its reading state: name, macro mark, hooks, escape, eater, multi-hooks,
  current hooks and the lookup table.
\<close>

definition pending :: "stackfile \<Rightarrow> char list" where
  "pending sf =
     (if eat_tail sf then drop 1 (rev (buf sf) @ fh sf) else rev (buf sf) @ fh sf)"

definition bytes_of :: "stackfile \<Rightarrow> char set" where
  "bytes_of sf = set (buf sf) \<union> set (fh sf)"

definition sf_cfg :: "stackfile \<Rightarrow> stackfile" where
  "sf_cfg sf = sf\<lparr>fh := [], buf := [], lineno := 0, column := 0, old_column := 0,
                    eat_tail := False\<rparr>"

text \<open>
  What the specification says of \<^verbatim>\<open>fs_get_one\<close>, on the list of files from the top: read
  the top file; at its end remove it and go on with the next; stop at the first byte, or
  with \<^verbatim>\<open>EOF\<close> when no file is left.
\<close>

fun pop_until_byte :: "bool \<Rightarrow> stackfile list \<Rightarrow> int \<times> stackfile list" where
  "pop_until_byte sg [] = (EOF, [])"
| "pop_until_byte sg (sf # rest) =
     (case sf_get sg sf of
        (ret, sf1) \<Rightarrow> if ret = EOF then pop_until_byte sg rest else (ret, sf1 # rest))"

section \<open>Example states\<close>

text \<open>
  The file \<^verbatim>\<open>sf_new\<close> builds for standard input with the default hooks
  \<^verbatim>\<open>-<\<close>, \<^verbatim>\<open>>-\<close> and the backslash escape, for given input bytes.
\<close>

definition plain_file :: "char list \<Rightarrow> stackfile" where
  "plain_file bytes =
     \<lparr>filename = ''<STDIN>'', fh = bytes, buf = [], lineno = 0, column = 0, old_column = 0,
      macro = False, macro_line = 0, macro_col = 0, eat_tail = False,
      hook = \<lparr>beg = ''-<'', hend = ''>-'', susp = None\<rparr>, hookesc = [CHR 0x5C],
      eater = None, multi = Multi_null, curhook = [],
      hook_esc_eq_beg = False, hook_esc_eq_end = False,
      hook_1st_chars = (\<lambda>c. False)(CHR ''-'' := True, CHR ''>'' := True, CHR 0x5C := True)\<rparr>"

definition eating_file :: "char list \<Rightarrow> stackfile" where
  \<comment> \<open>the same file after a macro that began with \<^verbatim>\<open>+\<close>\<close>
  "eating_file bytes = (plain_file bytes)\<lparr>eat_tail := True\<rparr>"

definition one_file :: "stackfile \<Rightarrow> filestack" where
  "one_file sf = \<lparr>files = [sf], files_prev = []\<rparr>"

definition no_files :: filestack where
  "no_files = \<lparr>files = [], files_prev = []\<rparr>"

definition stdout_sink :: "char list \<Rightarrow> bool \<Rightarrow> outfile" where
  \<comment> \<open>standard output with the bytes written so far, blocked or not\<close>
  "stdout_sink written b = \<lparr>ofilename = ''<STDOUT>'', ofh = written, olineno = 0, blocked = b\<rparr>"

definition parser_on :: "filestack \<Rightarrow> outfile list \<Rightarrow> unit pstate" where
  \<comment> \<open>the state \<^verbatim>\<open>ps_new\<close> builds, on a given input stack and given outputs\<close>
  "parser_on fk outs =
     \<lparr>fs = fk, check_buf = [], macro_buf = [], match_buf = [], in_macro = 0, suspension = 0,
      outputs = outs, flush = False, post_push = False, post_pop = False, mrb = ()\<rparr>"

text \<open>
  An interpreter that runs every script without callbacks, exception or result text, with
  no readable files; and a parser state inside a first-level macro that the default
  hook-begin opened.
\<close>

definition no_host :: "unit env" where
  "no_host = \<lparr>g_fopen = (\<lambda>n. None), stdin_bytes = [], stack_default = None,
              g_fopen_w = (\<lambda>n. True),
              mrb_load_string = (\<lambda>script ps. Host_done None [] ps)\<rparr>"

definition default_hook :: hookpair where
  "default_hook = \<lparr>beg = ''-<'', hend = ''>-'', susp = None\<rparr>"

definition macro_file :: "char list \<Rightarrow> stackfile" where
  "macro_file bytes = (plain_file bytes)\<lparr>macro := True, curhook := [default_hook]\<rparr>"

definition in_macro_state :: "char list \<Rightarrow> char list \<Rightarrow> unit pstate" where
  "in_macro_state body bytes =
     (parser_on (one_file (macro_file bytes)) [stdout_sink [] False])
       \<lparr>in_macro := 1, macro_buf := body\<rparr>"

text \<open>
  Two multi-hook pairs with a suspension string: \<^verbatim>\<open>$(\<close> ... \<^verbatim>\<open>)\<close> with \<^verbatim>\<open>(\<close>, for balanced
  parentheses, and \<^verbatim>\<open><%\<close> ... \<^verbatim>\<open>%>\<close> with \<^verbatim>\<open>%\<close>. \<open>hooked_file\<close> is the file
  \<^verbatim>\<open>sf_multi_hook\<close> builds for one pair from the default file, inside a macro this pair
  opened, and \<open>in_hooked_macro\<close> a parser state inside that first-level macro.
\<close>

definition paren_hook :: hookpair where
  "paren_hook = \<lparr>beg = ''$('', hend = '')'', susp = Some ''(''\<rparr>"

definition percent_hook :: hookpair where
  "percent_hook = \<lparr>beg = ''<%'', hend = ''%>'', susp = Some ''%''\<rparr>"

definition hooked_file :: "hookpair \<Rightarrow> char list \<Rightarrow> stackfile" where
  "hooked_file p bytes =
     (plain_file bytes)
       \<lparr>macro := True, multi := Multi_vec [p], curhook := [p],
        hook_1st_chars :=
          (\<lambda>c. c \<in> set (map first_byte ([beg p, hend p]
                                           @ (case susp p of None \<Rightarrow> [] | Some s \<Rightarrow> [s])
                                           @ [[CHR 0x5C]])))\<rparr>"

definition in_hooked_macro :: "hookpair \<Rightarrow> char list \<Rightarrow> char list \<Rightarrow> unit pstate" where
  "in_hooked_macro p body bytes =
     (parser_on (one_file (hooked_file p bytes)) [stdout_sink [] False])
       \<lparr>in_macro := 1, macro_buf := body\<rparr>"

section \<open>Basic facts\<close>

lemma sf_new_default: "sf_new sg fo bytes hi None None = Inr (plain_file bytes)"
  by (simp add: sf_new_def sf_update_hook_cache_def plain_file_def gchar_to_int_def first_byte_def
      g_strcmp0_def cstr_def NUL_def)

lemma int_to_gchar_of_char: "int_to_gchar (of_char c) = c"
  by (simp add: int_to_gchar_def)

lemma int_to_gchar_gchar_to_int: "int_to_gchar (gchar_to_int sg c) = c"
proof -
  have "char_of ((of_char c :: int) - 256) = char_of (of_char c :: int)"
    by (simp add: char_of_eq_iff take_bit_eq_mod)
  then show ?thesis
    by (simp add: int_to_gchar_def gchar_to_int_def)
qed

lemma of_char_range: "0 \<le> (of_char c :: int) \<and> (of_char c :: int) < 256"
proof -
  have "(of_char c :: int) mod 256 = of_char c"
    by simp
  then show ?thesis
    using pos_mod_sign [of 256 "of_char c :: int"] pos_mod_bound [of 256 "of_char c :: int"]
    by simp
qed

lemma of_char_neq_EOF: "(of_char c :: int) \<noteq> EOF"
  using of_char_range [of c] by (simp add: EOF_def)

lemma of_char_255: "(of_char c :: int) = 255 \<longleftrightarrow> c = CHR 0xFF"
proof -
  have "(of_char (CHR 0xFF) :: int) = 255" by simp
  then show ?thesis by (metis of_char_eq_iff)
qed

lemma gchar_to_int_EOF: "gchar_to_int sg c = EOF \<longleftrightarrow> sg \<and> c = CHR 0xFF"
  using of_char_range [of c] of_char_255 [of c]
  by (auto simp: gchar_to_int_def EOF_def)

lemma of_char_newline: "(of_char c :: int) = 10 \<longleftrightarrow> c = CHR 0x0A"
proof -
  have "(of_char (CHR 0x0A) :: int) = 10" by simp
  then show ?thesis by (metis of_char_eq_iff)
qed

lemma int_to_gchar_newline: "int_to_gchar 10 = CHR 0x0A"
  by (simp add: int_to_gchar_def char_of_eq_iff)

lemma gchar_to_int_newline: "gchar_to_int sg c = 10 \<longleftrightarrow> c = CHR 0x0A"
  using of_char_range [of c] of_char_newline [of c]
  by (auto simp: gchar_to_int_def)

lemma gchar_to_int_ascii: "(of_char c :: int) < 128 \<Longrightarrow> gchar_to_int sg c = of_char c"
  by (simp add: gchar_to_int_def)

lemmas byte_simps =
  int_to_gchar_of_char int_to_gchar_gchar_to_int of_char_neq_EOF gchar_to_int_EOF
  of_char_newline gchar_to_int_newline int_to_gchar_newline

lemmas byte_eval = EOF_def int_to_gchar_def gchar_to_int_def char_of_eq_iff

text \<open>\<^verbatim>\<open>sf_get\<close> runs its body once when \<^verbatim>\<open>eat_tail\<close> is clear and at most twice otherwise.\<close>

lemma sf_get_no_eat: "\<not> eat_tail sf \<Longrightarrow> sf_get sg sf = sf_fetch sg sf"
  using eat_tail_sf_fetch [of sg sf]
  by (subst sf_get.simps) (auto split: prod.splits)

lemma sf_get_eat:
  "eat_tail sf \<Longrightarrow> sf_get sg sf =
     (case sf_fetch sg sf of (ret, sf1) \<Rightarrow>
        if ret \<noteq> EOF then sf_fetch sg (sf1\<lparr>eat_tail := False\<rparr>) else (ret, sf1\<lparr>eat_tail := False\<rparr>))"
  using eat_tail_sf_fetch [of sg sf]
  by (subst sf_get.simps) (auto split: prod.splits simp: sf_get_no_eat)


lemma buf_foldl_sf_put: "buf (foldl sf_put sf xs) = buf sf @ xs"
  by (induction xs arbitrary: sf) (auto simp: sf_put_def Let_def)

lemma eat_tail_foldl_sf_put: "eat_tail (foldl sf_put sf xs) = eat_tail sf"
  by (induction xs arbitrary: sf) (auto simp: sf_put_def Let_def)

lemma fh_foldl_sf_put: "fh (foldl sf_put sf xs) = fh sf"
  by (induction xs arbitrary: sf) (auto simp: sf_put_def Let_def)

lemma fs_put_n_loop_top:
  "files fk = sf # rest \<Longrightarrow> n \<le> length str \<Longrightarrow>
   fs_put_n_loop fk str n = Inr (fk\<lparr>files := foldl sf_put sf (rev (take n str)) # rest\<rparr>)"
proof (induction n arbitrary: fk sf)
  case 0
  then show ?case by simp
next
  case (Suc n)
  have "take (Suc n) str = take n str @ [str ! n]"
    using Suc.prems(2) by (simp add: take_Suc_conv_app_nth)
  then show ?case
    using Suc by (simp add: fs_put_def)
qed


section \<open>Reading in terms of the pending bytes\<close>

lemma EOF_not_newline: "EOF \<noteq> 10" "10 \<noteq> EOF"
  by (simp_all add: EOF_def)

lemma sf_fetch_raw_nil:
  "rev (buf sf) @ fh sf = [] \<Longrightarrow> sf_fetch sg sf = (EOF, sf)"
  by (simp add: sf_fetch_def)

lemma sf_fetch_raw_cons:
  assumes "rev (buf sf) @ fh sf = c # cs" and "sg \<longrightarrow> CHR 0xFF \<notin> set (buf sf)"
  shows "\<exists>r sf'. sf_fetch sg sf = (r, sf') \<and> r \<noteq> EOF \<and> int_to_gchar r = c
      \<and> (r = of_char c \<or> r = gchar_to_int sg c)
      \<and> rev (buf sf') @ fh sf' = cs \<and> eat_tail sf' = eat_tail sf \<and> sf_cfg sf' = sf_cfg sf
      \<and> set (buf sf') \<subseteq> set (buf sf) \<and> bytes_of sf' \<subseteq> bytes_of sf"
proof (cases "buf sf = []")
  case True
  then show ?thesis
    using assms
    by (auto simp: sf_fetch_def sf_cfg_def bytes_of_def byte_simps EOF_not_newline Let_def
             split: list.splits)
next
  case False
  then obtain b x where b: "buf sf = b @ [x]"
    by (metis rev_exhaust)
  then show ?thesis
    using assms
    by (auto simp: sf_fetch_def sf_cfg_def bytes_of_def byte_simps Let_def)
qed

lemma sf_cfg_eat_tail: "sf_cfg (sf\<lparr>eat_tail := b\<rparr>) = sf_cfg sf"
  by (simp add: sf_cfg_def)

lemma bytes_of_eat_tail: "bytes_of (sf\<lparr>eat_tail := b\<rparr>) = bytes_of sf"
  by (simp add: bytes_of_def)

lemma sf_get_pending_nil:
  assumes "sg \<longrightarrow> CHR 0xFF \<notin> set (buf sf)" and "pending sf = []"
  shows "\<exists>sf'. sf_get sg sf = (EOF, sf') \<and> pending sf' = [] \<and> \<not> eat_tail sf'
      \<and> sf_cfg sf' = sf_cfg sf \<and> set (buf sf') \<subseteq> set (buf sf) \<and> bytes_of sf' \<subseteq> bytes_of sf"
proof (cases "eat_tail sf")
  case False
  then show ?thesis
    using assms(2) by (simp add: sf_get_no_eat pending_def sf_fetch_raw_nil)
next
  case True
  show ?thesis
  proof (cases "rev (buf sf) @ fh sf")
    case Nil
    then have "sf_get sg sf = (EOF, sf\<lparr>eat_tail := False\<rparr>)"
      using True by (simp add: sf_get_eat sf_fetch_raw_nil)
    then show ?thesis
      using Nil by (simp add: pending_def sf_cfg_eat_tail bytes_of_eat_tail)
  next
    case (Cons c cs)
    then have "cs = []"
      using assms(2) True by (simp add: pending_def)
    obtain r sf1 where f: "sf_fetch sg sf = (r, sf1)" "r \<noteq> EOF"
        "rev (buf sf1) @ fh sf1 = cs" "sf_cfg sf1 = sf_cfg sf" "set (buf sf1) \<subseteq> set (buf sf)"
        "bytes_of sf1 \<subseteq> bytes_of sf"
      using sf_fetch_raw_cons [OF Cons assms(1)] by blast
    have "sf_fetch sg (sf1\<lparr>eat_tail := False\<rparr>) = (EOF, sf1\<lparr>eat_tail := False\<rparr>)"
      using f(3) \<open>cs = []\<close> by (intro sf_fetch_raw_nil) simp
    then have "sf_get sg sf = (EOF, sf1\<lparr>eat_tail := False\<rparr>)"
      using True f(1,2) by (simp add: sf_get_eat)
    then show ?thesis
      using f(3-6) \<open>cs = []\<close> by (simp add: pending_def sf_cfg_eat_tail bytes_of_eat_tail)
  qed
qed

lemma sf_get_pending_cons:
  assumes "sg \<longrightarrow> CHR 0xFF \<notin> set (buf sf)" and "pending sf = c # cs"
  shows "\<exists>r sf'. sf_get sg sf = (r, sf') \<and> r \<noteq> EOF \<and> int_to_gchar r = c
      \<and> (r = of_char c \<or> r = gchar_to_int sg c)
      \<and> pending sf' = cs \<and> \<not> eat_tail sf' \<and> sf_cfg sf' = sf_cfg sf
      \<and> set (buf sf') \<subseteq> set (buf sf) \<and> bytes_of sf' \<subseteq> bytes_of sf"
proof (cases "eat_tail sf")
  case False
  then have raw: "rev (buf sf) @ fh sf = c # cs"
    using assms(2) by (simp add: pending_def)
  obtain r sf1 where f: "sf_fetch sg sf = (r, sf1)" "r \<noteq> EOF" "int_to_gchar r = c"
      "r = of_char c \<or> r = gchar_to_int sg c"
      "rev (buf sf1) @ fh sf1 = cs" "eat_tail sf1 = eat_tail sf" "sf_cfg sf1 = sf_cfg sf"
      "set (buf sf1) \<subseteq> set (buf sf)" "bytes_of sf1 \<subseteq> bytes_of sf"
    using sf_fetch_raw_cons [OF raw assms(1)] by blast
  have "pending sf1 = cs"
    using f(5,6) False by (simp add: pending_def)
  then show ?thesis
    using False f by (intro exI [of _ r] exI [of _ sf1]) (simp add: sf_get_no_eat)
next
  case True
  then obtain x where raw: "rev (buf sf) @ fh sf = x # c # cs"
    using assms(2) by (cases "rev (buf sf) @ fh sf") (auto simp: pending_def)
  obtain r sf1 where f: "sf_fetch sg sf = (r, sf1)" "r \<noteq> EOF"
      "rev (buf sf1) @ fh sf1 = c # cs" "sf_cfg sf1 = sf_cfg sf" "set (buf sf1) \<subseteq> set (buf sf)"
      "bytes_of sf1 \<subseteq> bytes_of sf"
    using sf_fetch_raw_cons [OF raw assms(1)] by blast
  let ?sf2 = "sf1\<lparr>eat_tail := False\<rparr>"
  have raw2: "rev (buf ?sf2) @ fh ?sf2 = c # cs"
    using f(3) by simp
  have ok2: "sg \<longrightarrow> CHR 0xFF \<notin> set (buf ?sf2)"
    using f(5) assms(1) by auto
  obtain r2 sf2 where f2: "sf_fetch sg ?sf2 = (r2, sf2)" "r2 \<noteq> EOF" "int_to_gchar r2 = c"
      "r2 = of_char c \<or> r2 = gchar_to_int sg c"
      "rev (buf sf2) @ fh sf2 = cs" "eat_tail sf2 = eat_tail ?sf2" "sf_cfg sf2 = sf_cfg ?sf2"
      "set (buf sf2) \<subseteq> set (buf ?sf2)" "bytes_of sf2 \<subseteq> bytes_of ?sf2"
    using sf_fetch_raw_cons [OF raw2 ok2] by blast
  have get: "sf_get sg sf = (r2, sf2)"
    using True f(1,2) f2(1) by (simp add: sf_get_eat)
  have "pending sf2 = cs" "\<not> eat_tail sf2"
    using f2(5,6) by (simp_all add: pending_def)
  moreover have "sf_cfg sf2 = sf_cfg sf"
    using f2(7) f(4) by (simp add: sf_cfg_eat_tail)
  moreover have "set (buf sf2) \<subseteq> set (buf sf)" "bytes_of sf2 \<subseteq> bytes_of sf"
    using f2(8,9) f(5,6) by (auto simp: bytes_of_eat_tail)
  ultimately show ?thesis
    using get f2(2,3,4) by (intro exI [of _ r2] exI [of _ sf2]) simp
qed

section \<open>Position round-trip of one byte\<close>

text \<open>
  Claim C5, as stated: for every state of a file and every byte, \<^verbatim>\<open>sf_get\<close> followed by
  \<^verbatim>\<open>sf_put\<close> of the byte it returned restores \<^verbatim>\<open>(lineno, column)\<close>.

  This fails when \<^verbatim>\<open>eat_tail\<close> is set. On the input \<^verbatim>\<open>ab\<close> the call then consumes and
  counts \<^verbatim>\<open>a\<close>, returns \<^verbatim>\<open>b\<close> at column 2, and putting \<^verbatim>\<open>b\<close> back leaves column 1,
  not the column 0 before the call.
\<close>

theorem sf_get_put_position_counterexample:
  "fst (sf_get False (eating_file ''ab'')) = of_char CHR ''b''
   \<and> fst (sf_get False (eating_file ''ab'')) \<noteq> EOF
   \<and> column (sf_put (snd (sf_get False (eating_file ''ab''))) CHR ''b'') = 1
   \<and> column (eating_file ''ab'') = 0"
  by (simp add: sf_get_eat eating_file_def plain_file_def sf_fetch_def sf_put_def EOF_def Let_def)

text \<open>
  Claim C5, amended: for every state of a file whose \<^verbatim>\<open>eat_tail\<close> flag is clear and every
  byte (the newline included), a \<^verbatim>\<open>sf_get\<close> that returns the byte followed by \<^verbatim>\<open>sf_put\<close>
  of that byte restores \<^verbatim>\<open>lineno\<close> and \<^verbatim>\<open>column\<close>.
\<close>

theorem sf_get_put_position:
  assumes "\<not> eat_tail sf" and "sf_get sg sf = (ret, sf1)" and "ret \<noteq> EOF"
  shows "lineno (sf_put sf1 (int_to_gchar ret)) = lineno sf
       \<and> column (sf_put sf1 (int_to_gchar ret)) = column sf"
proof -
  have fetched: "sf_fetch sg sf = (ret, sf1)"
    using assms(1,2) by (simp add: sf_get_no_eat)
  show ?thesis
  proof (cases "buf sf = []")
    case True
    then obtain c cs where "fh sf = c # cs"
      using fetched assms(3) by (cases "fh sf") (auto simp: sf_fetch_def)
    then show ?thesis
      using fetched True of_char_newline [of c] of_char_neq_EOF [of c]
      by (auto simp: sf_fetch_def sf_put_def int_to_gchar_of_char int_to_gchar_newline Let_def
               split: if_splits)
  next
    case False
    then show ?thesis
      using fetched assms(3) gchar_to_int_newline [of sg "last (buf sf)"]
      by (auto simp: sf_fetch_def sf_put_def int_to_gchar_gchar_to_int int_to_gchar_newline
               Let_def split: if_splits)
  qed
qed

theorem sf_get_put_position_witness:
  "\<not> eat_tail (plain_file [CHR 0x0A, CHR ''b''])
   \<and> sf_get True (plain_file [CHR 0x0A, CHR ''b''])
       = (10, (plain_file ''b'')\<lparr>old_column := 0, lineno := 1, column := 0\<rparr>)
   \<and> 10 \<noteq> EOF
   \<and> lineno (sf_put ((plain_file ''b'')\<lparr>old_column := 0, lineno := 1, column := 0\<rparr>)
               (int_to_gchar 10)) = lineno (plain_file [CHR 0x0A, CHR ''b''])
   \<and> column (sf_put ((plain_file ''b'')\<lparr>old_column := 0, lineno := 1, column := 0\<rparr>)
               (int_to_gchar 10)) = column (plain_file [CHR 0x0A, CHR ''b''])"
proof -
  have a: "\<not> eat_tail (plain_file [CHR 0x0A, CHR ''b''])"
    by (simp add: plain_file_def)
  have b: "sf_get True (plain_file [CHR 0x0A, CHR ''b''])
             = (10, (plain_file ''b'')\<lparr>old_column := 0, lineno := 1, column := 0\<rparr>)"
    by (simp add: sf_get_no_eat a sf_fetch_def plain_file_def EOF_def Let_def)
  have c: "(10::int) \<noteq> EOF"
    by (simp add: EOF_def)
  show ?thesis
    using a b c sf_get_put_position [OF a b c] by simp
qed

section \<open>Push-back order\<close>




section \<open>Reads from an empty stack, and the pop loop\<close>

lemma pop_until_byte_EOF: "fst (pop_until_byte sg xs) = EOF \<longleftrightarrow> snd (pop_until_byte sg xs) = []"
  by (induction xs) (auto split: prod.splits)

lemma fs_get_one_loop_round:
  "ret \<noteq> EOF \<Longrightarrow> fs_get_one_loop sg ret fk = Inr (ret, fk)"
  "files fk = [sf] \<Longrightarrow> fs_get_one_loop sg EOF fk = Inr (EOF, fk\<lparr>files := [], files_prev := []\<rparr>)"
  "files fk = sf # sf2 # rest \<Longrightarrow>
     fs_get_one_loop sg EOF fk =
       fs_get_one_loop sg (fst (sf_get sg sf2)) (fk\<lparr>files := snd (sf_get sg sf2) # rest\<rparr>)"
  by (subst fs_get_one_loop.simps, simp add: fs_pop_file_def fs_get_def split: prod.splits)+

lemma fs_get_one_loop_pops:
  "files fk \<noteq> [] \<Longrightarrow>
   fs_get_one_loop sg ret fk =
     (let l = (if ret = EOF then pop_until_byte sg (tl (files fk)) else (ret, files fk))
      in Inr (fst l, fk\<lparr>files := snd l,
                        files_prev := (if snd l = [] then [] else files_prev fk)\<rparr>))"
proof (induction sg ret fk rule: fs_get_one_loop.induct)
  case (1 sg ret fk)
  show ?case
  proof (cases "ret = EOF")
    case False
    then show ?thesis
      using "1.prems" by (simp add: fs_get_one_loop_round(1))
  next
    case True
    obtain sf rest where fk: "files fk = sf # rest"
      using "1.prems" by (cases "files fk") auto
    show ?thesis
    proof (cases rest)
      case Nil
      then show ?thesis
        using True fk by (simp add: fs_get_one_loop_round(2))
    next
      case (Cons sf2 rest2)
      obtain r2 sf2' where g: "sf_get sg sf2 = (r2, sf2')"
        by (cases "sf_get sg sf2") auto
      let ?fk1 = "fk\<lparr>files := rest, files_prev := (if rest = [] then [] else files_prev fk)\<rparr>"
      let ?fk2 = "fk\<lparr>files := sf2' # rest2\<rparr>"
      have pop: "fs_pop_file fk = Inr ?fk1"
        using fk by (simp add: fs_pop_file_def)
      have ne: "files ?fk1 \<noteq> []"
        using Cons by simp
      have got: "(r2, ?fk2) = fs_get sg ?fk1"
        using Cons g by (simp add: fs_get_def)
      have ih: "fs_get_one_loop sg r2 ?fk2 =
          (let l = (if r2 = EOF then pop_until_byte sg (tl (files ?fk2)) else (r2, files ?fk2))
           in Inr (fst l, ?fk2\<lparr>files := snd l,
                        files_prev := (if snd l = [] then [] else files_prev ?fk2)\<rparr>))"
        using "1.IH" [OF True pop ne got] by simp
      have "fs_get_one_loop sg ret fk = fs_get_one_loop sg r2 ?fk2"
        using True fk Cons g
          fs_get_one_loop_round(3) [where fk = fk and sf = sf and ?sf2.0 = sf2 and rest = rest2
            and sg = sg]
        by simp
      then show ?thesis
        using ih True fk Cons g by (simp add: Let_def)
    qed
  qed
qed

text \<open>
  Claim C10: on an empty file stack \<^verbatim>\<open>fs_get\<close> and \<^verbatim>\<open>fs_get_one\<close> return \<^verbatim>\<open>EOF\<close> and
  change nothing. On a stack with files \<^verbatim>\<open>fs_get_one\<close> returns what \<open>pop_until_byte\<close>
  says: the files on top that are at their end are removed, the byte is the first byte of
  the first file that has one, and that file stays on top; \<^verbatim>\<open>EOF\<close> is returned exactly
  when no file is left. One round of the pop loop removes exactly the top file: entered
  with a byte the loop returns it and leaves the stack alone, entered with \<^verbatim>\<open>EOF\<close> on the
  last file it empties the stack and returns \<^verbatim>\<open>EOF\<close>, and entered with \<^verbatim>\<open>EOF\<close> on a
  file above another it goes on with the read of the file just below. The loop is a
  total function (its termination is proved from the number of files), and the pop of a
  missing file is never reached.
\<close>

theorem fs_get_one_total:
  "(files fk = [] \<longrightarrow> fs_get sg fk = (EOF, fk) \<and> fs_get_one sg fk = Inr (EOF, fk))
   \<and> (files fk \<noteq> [] \<longrightarrow>
        fs_get_one sg fk =
          Inr (fst (pop_until_byte sg (files fk)),
               fk\<lparr>files := snd (pop_until_byte sg (files fk)),
                  files_prev := (if snd (pop_until_byte sg (files fk)) = [] then []
                                 else files_prev fk)\<rparr>))
   \<and> (fst (pop_until_byte sg (files fk)) = EOF \<longleftrightarrow> snd (pop_until_byte sg (files fk)) = [])
   \<and> (ret \<noteq> EOF \<longrightarrow> fs_get_one_loop sg ret fk = Inr (ret, fk))
   \<and> (files fk = [sf] \<longrightarrow>
        fs_get_one_loop sg EOF fk = Inr (EOF, fk\<lparr>files := [], files_prev := []\<rparr>))
   \<and> (files fk = sf # sf2 # rest \<longrightarrow>
        fs_get_one_loop sg EOF fk =
          fs_get_one_loop sg (fst (sf_get sg sf2)) (fk\<lparr>files := snd (sf_get sg sf2) # rest\<rparr>))"
proof -
  have whole: "fs_get_one sg fk =
          Inr (fst (pop_until_byte sg (files fk)),
               fk\<lparr>files := snd (pop_until_byte sg (files fk)),
                  files_prev := (if snd (pop_until_byte sg (files fk)) = [] then []
                                 else files_prev fk)\<rparr>)"
    if ne: "files fk \<noteq> []"
  proof -
    obtain sf0 rest0 where fk: "files fk = sf0 # rest0"
      using ne by (cases "files fk") auto
    obtain r sf1 where g: "sf_get sg sf0 = (r, sf1)"
      by (cases "sf_get sg sf0") auto
    let ?fk1 = "fk\<lparr>files := sf1 # rest0\<rparr>"
    have "fs_get_one sg fk = fs_get_one_loop sg r ?fk1"
      using fk g by (simp add: fs_get_one_def fs_get_def)
    also have "\<dots> =
        (let l = (if r = EOF then pop_until_byte sg (tl (files ?fk1)) else (r, files ?fk1))
         in Inr (fst l, ?fk1\<lparr>files := snd l,
                        files_prev := (if snd l = [] then [] else files_prev ?fk1)\<rparr>))"
      by (rule fs_get_one_loop_pops) simp
    finally show ?thesis
      using fk g by (simp add: Let_def)
  qed
  show ?thesis
    using whole pop_until_byte_EOF [of sg "files fk"]
      fs_get_one_loop_round(1) [where ret = ret and sg = sg and fk = fk]
      fs_get_one_loop_round(2) [where fk = fk and sf = sf and sg = sg]
      fs_get_one_loop_round(3) [where fk = fk and sf = sf and ?sf2.0 = sf2 and rest = rest
        and sg = sg]
    by (simp add: fs_get_def fs_get_one_def)
qed



theorem fs_get_one_total_witness:
  "files no_files = []
   \<and> fs_get True no_files = (EOF, no_files)
   \<and> fs_get_one True no_files = Inr (EOF, no_files)
   \<and> files \<lparr>files = [plain_file [], plain_file ''LOWER''], files_prev = []\<rparr> \<noteq> []
   \<and> fs_get_one True \<lparr>files = [plain_file [], plain_file ''LOWER''], files_prev = []\<rparr>
       = Inr (of_char CHR ''L'', \<lparr>files = [(plain_file ''OWER'')\<lparr>column := 1\<rparr>], files_prev = []\<rparr>)
   \<and> fs_get_one True \<lparr>files = [plain_file [], plain_file []], files_prev = [plain_file ''x'']\<rparr>
       = Inr (EOF, no_files)"
proof -
  let ?two = "\<lparr>files = [plain_file [], plain_file ''LOWER''], files_prev = []\<rparr>"
  let ?dry = "\<lparr>files = [plain_file [], plain_file []], files_prev = [plain_file ''x'']\<rparr>"
  have e: "files no_files = []"
    by (simp add: no_files_def)
  have g0: "sf_get True (plain_file []) = (EOF, plain_file [])"
    by (simp add: sf_get_no_eat sf_fetch_def plain_file_def)
  have g1: "sf_get True (plain_file ''LOWER'') = (of_char CHR ''L'', (plain_file ''OWER'')\<lparr>column := 1\<rparr>)"
    by (simp add: sf_get_no_eat sf_fetch_def plain_file_def EOF_def Let_def)
  have p2: "pop_until_byte True (files ?two)
              = (of_char CHR ''L'', [(plain_file ''OWER'')\<lparr>column := 1\<rparr>])"
    using of_char_neq_EOF [of "CHR ''L''"] by (simp add: g0 g1)
  have p3: "pop_until_byte True (files ?dry) = (EOF, [])"
    by (simp add: g0)
  have a: "fs_get True no_files = (EOF, no_files) \<and> fs_get_one True no_files = Inr (EOF, no_files)"
    using conjunct1 [OF fs_get_one_total [of no_files True]] e by simp
  have b: "fs_get_one True ?two
       = Inr (of_char CHR ''L'', \<lparr>files = [(plain_file ''OWER'')\<lparr>column := 1\<rparr>], files_prev = []\<rparr>)"
    using conjunct1 [OF conjunct2 [OF fs_get_one_total [of ?two True]]]
    by (simp only: p2) simp
  have c: "fs_get_one True ?dry = Inr (EOF, no_files)"
    using conjunct1 [OF conjunct2 [OF fs_get_one_total [of ?dry True]]]
    by (simp only: p3) (simp add: no_files_def)
  show ?thesis
    using e a b c by simp
qed

section \<open>Output to a blocked sink\<close>

lemma ps_out_chars_blocked:
  "outputs ps = ofl # rest \<Longrightarrow> blocked ofl \<Longrightarrow> ps_out_chars sg ps cs = Inr ps"
  by (induction cs) (auto simp: ps_out_def)

lemma ps_out_chars_open:
  "outputs ps = ofl # rest \<Longrightarrow> \<not> blocked ofl \<Longrightarrow>
   ps_out_chars sg ps cs =
     Inr (ps\<lparr>outputs := ofl\<lparr>olineno := olineno ofl + int (count_list cs CHR 0x0A),
                             ofh := ofh ofl @ cs\<rparr> # rest\<rparr>)"
proof (induction cs arbitrary: ps ofl)
  case Nil
  then show ?case by simp
next
  case (Cons c cs)
  let ?ofl1 = "ofl\<lparr>olineno := (if c = CHR 0x0A then olineno ofl + 1 else olineno ofl),
                    ofh := ofh ofl @ [c]\<rparr>"
  have one: "ps_out ps (gchar_to_int sg c) = Inr (ps\<lparr>outputs := ?ofl1 # rest\<rparr>)"
    using Cons.prems by (simp add: ps_out_def byte_simps)
  have "ps_out_chars sg (ps\<lparr>outputs := ?ofl1 # rest\<rparr>) cs =
     Inr ((ps\<lparr>outputs := ?ofl1 # rest\<rparr>)\<lparr>outputs :=
            ?ofl1\<lparr>olineno := olineno ?ofl1 + int (count_list cs CHR 0x0A),
                  ofh := ofh ?ofl1 @ cs\<rparr> # rest\<rparr>)"
    using Cons.prems by (intro Cons.IH) auto
  then show ?case
    using one by simp
qed

text \<open>
  Claim C9: a byte written with \<^verbatim>\<open>ps_out\<close> (and a string written with \<^verbatim>\<open>ps_out_str\<close>)
  while the top sink is blocked leaves the whole parser state, the sink included, as it
  was. While the sink is not blocked the byte is appended to its stream as it is and the
  line counter goes up exactly for the newline; for a string, by the number of its
  newlines. \<^verbatim>\<open>ps_block_output\<close> and \<^verbatim>\<open>ps_unblock_output\<close> change the \<^verbatim>\<open>blocked\<close> flag of
  the top sink and nothing else.
\<close>

theorem ps_out_blocked_frame:
  assumes "outputs ps = ofl # rest"
  shows "(blocked ofl \<longrightarrow> ps_out ps c = Inr ps \<and> ps_out_str sg ps (Some str) = Inr ps)
       \<and> (\<not> blocked ofl \<longrightarrow>
            ps_out ps (gchar_to_int sg b) =
              Inr (ps\<lparr>outputs := ofl\<lparr>olineno := olineno ofl + (if b = CHR 0x0A then 1 else 0),
                                      ofh := ofh ofl @ [b]\<rparr> # rest\<rparr>)
          \<and> ps_out_str sg ps (Some str) =
              Inr (ps\<lparr>outputs :=
                     ofl\<lparr>olineno := olineno ofl + int (count_list (cstr str) CHR 0x0A),
                         ofh := ofh ofl @ cstr str\<rparr> # rest\<rparr>))
       \<and> ps_block_output ps = Inr (ps\<lparr>outputs := ofl\<lparr>blocked := True\<rparr> # rest\<rparr>)
       \<and> ps_unblock_output ps = Inr (ps\<lparr>outputs := ofl\<lparr>blocked := False\<rparr> # rest\<rparr>)"
  using assms ps_out_chars_blocked [OF assms, of sg "cstr str"]
    ps_out_chars_open [OF assms, of sg "cstr str"]
  by (simp add: ps_out_def ps_out_str_def ps_block_output_def ps_unblock_output_def byte_simps)

theorem ps_out_blocked_frame_witness:
  "outputs (parser_on no_files [stdout_sink ''a'' True]) = stdout_sink ''a'' True # []
   \<and> blocked (stdout_sink ''a'' True)
   \<and> ps_out (parser_on no_files [stdout_sink ''a'' True]) 104
        = Inr (parser_on no_files [stdout_sink ''a'' True])
   \<and> ps_out_str True (parser_on no_files [stdout_sink ''a'' True]) (Some ''HIDDEN'')
        = Inr (parser_on no_files [stdout_sink ''a'' True])
   \<and> outputs (parser_on no_files [stdout_sink ''a'' False]) = stdout_sink ''a'' False # []
   \<and> \<not> blocked (stdout_sink ''a'' False)
   \<and> ps_out_str True (parser_on no_files [stdout_sink ''a'' False]) (Some ''SHOWN'')
        = Inr (parser_on no_files [stdout_sink ''aSHOWN'' False])"
proof -
  have a: "outputs (parser_on no_files [stdout_sink ''a'' True]) = stdout_sink ''a'' True # []"
    by (simp add: parser_on_def)
  have b: "blocked (stdout_sink ''a'' True)"
    by (simp add: stdout_sink_def)
  have c: "outputs (parser_on no_files [stdout_sink ''a'' False]) = stdout_sink ''a'' False # []"
    by (simp add: parser_on_def)
  have d: "\<not> blocked (stdout_sink ''a'' False)"
    by (simp add: stdout_sink_def)
  have e: "cstr ''SHOWN'' = ''SHOWN''"
    by (simp add: cstr_def NUL_def)
  show ?thesis
    using a b c d ps_out_blocked_frame [OF a, of 104 True "''HIDDEN''"]
      ps_out_blocked_frame [OF c, of 104 True "''SHOWN''"]
    by (simp add: e parser_on_def stdout_sink_def)
qed

section \<open>The first-byte table after configuration changes\<close>

lemmas cfg_eval = sf_multi_hook_def sf_set_hook_def
  sf_update_hook_cache_def plain_file_def g_strcmp0_def cstr_def NUL_def first_byte_def
  MULTI_LIMIT_def gchar_to_int_def active_delims_def bitmap_complete_def Let_def

text \<open>
  Claim C1 says that after any sequence of \<^verbatim>\<open>sf_set_hook\<close>, \<^verbatim>\<open>sf_set_eater\<close> and
  \<^verbatim>\<open>sf_multi_hook\<close> every delimiter in use has its first byte marked in
  \<^verbatim>\<open>hook_1st_chars\<close>. The code does not keep this. Starting from the default
  configuration, two multi-hook pairs are added, the first beginning with a backslash,
  and then the escape is changed from the backslash to \<^verbatim>\<open>@\<close>: \<^verbatim>\<open>sf_set_hook\<close> clears the
  entry of the old escape's first byte, and \<^verbatim>\<open>sf_update_hook_cache\<close> marks only the
  latest pair and the new escape again. The first pair is still in use and its first
  byte is no longer marked. In the second run \<^verbatim>\<open>sf_set_hook\<close> leaves multi-hook mode: it
  frees the array but keeps the pointer, and \<^verbatim>\<open>sf_update_hook_cache\<close> reads the entry
  before the freed array.
\<close>

theorem bitmap_incomplete_after_mutations:
  "map_sum id (\<lambda>sf. (active_delims sf, hook_1st_chars sf (CHR 0x5C), bitmap_complete sf))
     (mutate_all sg (plain_file [])
        [Multi_hook [CHR 0x5C, CHR ''b''] [CHR 0x5C, CHR ''e''] None,
         Multi_hook ''['' '']'' None,
         Set_hook hook_esc ''@''])
     = Inr ([[CHR 0x5C, CHR ''b''], [CHR 0x5C, CHR ''e''], ''['', '']'', ''@''], False, False)
   \<and> mutate_all sg (plain_file []) [Multi_hook ''['' '']'' None, Set_hook hook_beg ''{{'']
     = Inl Invalid_access"
  by (simp add: cfg_eval)

section \<open>The match probe\<close>

lemma filestack_files_same: "files fk = xs \<Longrightarrow> fk\<lparr>files := xs\<rparr> = fk"
  by simp

lemma fs_get_n_loop_pending:
  assumes "files fk = sf # rest" and "sg \<longrightarrow> CHR 0xFF \<notin> set (buf sf)"
  shows "\<exists>sf'. fs_get_n_loop sg fk n acc = (acc @ take n (pending sf), fk\<lparr>files := sf' # rest\<rparr>)
      \<and> pending sf' = drop n (pending sf) \<and> (\<not> eat_tail sf \<or> 0 < n \<longrightarrow> \<not> eat_tail sf')
      \<and> sf_cfg sf' = sf_cfg sf \<and> set (buf sf') \<subseteq> set (buf sf) \<and> bytes_of sf' \<subseteq> bytes_of sf"
  using assms
proof (induction n arbitrary: fk sf acc)
  case 0
  then show ?case
    by (intro exI [of _ sf]) simp
next
  case (Suc n)
  show ?case
  proof (cases "pending sf")
    case Nil
    obtain sf1 where g: "sf_get sg sf = (EOF, sf1)" "pending sf1 = []" "\<not> eat_tail sf1"
        "sf_cfg sf1 = sf_cfg sf" "set (buf sf1) \<subseteq> set (buf sf)" "bytes_of sf1 \<subseteq> bytes_of sf"
      using sf_get_pending_nil [OF Suc.prems(2) Nil] by blast
    show ?thesis
      using Suc.prems(1) g Nil by (intro exI [of _ sf1]) (simp add: fs_get_def)
  next
    case (Cons c cs)
    obtain r sf1 where g: "sf_get sg sf = (r, sf1)" "r \<noteq> EOF" "int_to_gchar r = c"
        "pending sf1 = cs" "\<not> eat_tail sf1"
        "sf_cfg sf1 = sf_cfg sf" "set (buf sf1) \<subseteq> set (buf sf)" "bytes_of sf1 \<subseteq> bytes_of sf"
      using sf_get_pending_cons [OF Suc.prems(2) Cons] by blast
    let ?fk1 = "fk\<lparr>files := sf1 # rest\<rparr>"
    have "\<exists>sf'. fs_get_n_loop sg ?fk1 n (acc @ [c])
            = ((acc @ [c]) @ take n (pending sf1), ?fk1\<lparr>files := sf' # rest\<rparr>)
      \<and> pending sf' = drop n (pending sf1) \<and> (\<not> eat_tail sf1 \<or> 0 < n \<longrightarrow> \<not> eat_tail sf')
      \<and> sf_cfg sf' = sf_cfg sf1 \<and> set (buf sf') \<subseteq> set (buf sf1) \<and> bytes_of sf' \<subseteq> bytes_of sf1"
      using g(7) Suc.prems(2) by (intro Suc.IH) auto
    then obtain sf' where r: "fs_get_n_loop sg ?fk1 n (acc @ [c])
            = ((acc @ [c]) @ take n (pending sf1), ?fk1\<lparr>files := sf' # rest\<rparr>)"
      "pending sf' = drop n (pending sf1)" "\<not> eat_tail sf'"
      "sf_cfg sf' = sf_cfg sf1" "set (buf sf') \<subseteq> set (buf sf1)" "bytes_of sf' \<subseteq> bytes_of sf1"
      using g(5) by blast
    show ?thesis
      using Suc.prems(1) g Cons r by (intro exI [of _ sf']) (auto simp: fs_get_def)
  qed
qed

lemma sf_cfg_sf_put: "sf_cfg (sf_put sf c) = sf_cfg sf"
  by (simp add: sf_cfg_def sf_put_def Let_def)

lemma sf_cfg_foldl_sf_put: "sf_cfg (foldl sf_put sf xs) = sf_cfg sf"
  by (induction xs arbitrary: sf) (simp_all add: sf_cfg_sf_put)

lemma pending_foldl_sf_put:
  "\<not> eat_tail sf \<Longrightarrow> pending (foldl sf_put sf (rev xs)) = xs @ pending sf"
  by (simp add: pending_def eat_tail_foldl_sf_put buf_foldl_sf_put fh_foldl_sf_put)

lemma bytes_of_foldl_sf_put: "bytes_of (foldl sf_put sf xs) = set xs \<union> bytes_of sf"
  by (auto simp: bytes_of_def buf_foldl_sf_put fh_foldl_sf_put)

lemma cstr_no_NUL: "NUL \<notin> set m \<Longrightarrow> cstr m = m"
  by (auto simp: cstr_def takeWhile_eq_all_conv)

lemma cstr_eq_iff:
  assumes "NUL \<notin> set m" and "length input \<le> length m"
  shows "cstr input = m \<longleftrightarrow> input = m"
proof
  assume a: "cstr input = m"
  have "length (takeWhile (\<lambda>c. c \<noteq> NUL) input) = length input"
    using a assms(2) length_takeWhile_le [of "\<lambda>c. c \<noteq> NUL" input] by (simp add: cstr_def)
  then have "takeWhile (\<lambda>c. c \<noteq> NUL) input = input"
    by (metis takeWhile_eq_take take_all order_refl)
  then have "cstr input = input"
    by (simp only: cstr_def)
  then show "input = m" using a by simp
next
  assume "input = m"
  then show "cstr input = m" using assms(1) by (simp add: cstr_no_NUL)
qed


lemma fs_put_n_whole:
  assumes "files fk = sf # rest" and "xs \<noteq> []"
  shows "fs_put_n fk xs (length xs) = Inr (fk\<lparr>files := foldl sf_put sf (rev xs) # rest\<rparr>)"
  using assms fs_put_n_loop_top [OF assms(1), of "length xs" xs]
  by (simp add: fs_put_n_def)

text \<open>
  What \<^verbatim>\<open>ps_check\<close> does, by the bytes it can read: \<open>take (length m) (pending sf)\<close>.
\<close>

lemma ps_check_probe_aux:
  assumes top: "files (fs ps) = sf # rest"
    and ok: "sg \<longrightarrow> CHR 0xFF \<notin> set (buf sf)"
    and m: "NUL \<notin> set m"
  shows "(take (length m) (pending sf) = [] \<longrightarrow>
           ps_check sg ps m erase =
             Inr (False, ps\<lparr>match_buf := m, check_buf := [],
                             fs := (fs ps)\<lparr>files := rest,
                                           files_prev := (if rest = [] then [] else files_prev (fs ps))\<rparr>\<rparr>))
       \<and> (take (length m) (pending sf) \<noteq> [] \<longrightarrow>
           (\<exists>sf'. ps_check sg ps m erase =
              Inr (take (length m) (pending sf) = m,
                   ps\<lparr>match_buf := m, check_buf := take (length m) (pending sf),
                      fs := (fs ps)\<lparr>files := sf' # rest\<rparr>\<rparr>)
             \<and> pending sf' = (if take (length m) (pending sf) = m \<and> erase
                              then drop (length m) (pending sf) else pending sf)
             \<and> \<not> eat_tail sf' \<and> sf_cfg sf' = sf_cfg sf \<and> bytes_of sf' \<subseteq> bytes_of sf))"
proof -
  let ?input = "take (length m) (pending sf)"
  obtain sf1 where g: "fs_get_n_loop sg (fs ps) (length m) [] = ([] @ ?input, (fs ps)\<lparr>files := sf1 # rest\<rparr>)"
      "pending sf1 = drop (length m) (pending sf)" "\<not> eat_tail sf \<or> 0 < length m \<longrightarrow> \<not> eat_tail sf1"
      "sf_cfg sf1 = sf_cfg sf" "set (buf sf1) \<subseteq> set (buf sf)" "bytes_of sf1 \<subseteq> bytes_of sf"
    using fs_get_n_loop_pending [OF top ok, of "length m" "[]"] by blast
  have len: "strlen m = length m" and cm: "cstr m = m"
    using m by (simp_all add: strlen_def cstr_no_NUL)
  have getn: "fs_get_n sg (fs ps) (strlen m) = (?input, (fs ps)\<lparr>files := sf1 # rest\<rparr>)"
    using g(1) by (simp add: fs_get_n_def len)
  show ?thesis
  proof (cases "?input = []")
    case True
    then show ?thesis
      using getn by (simp add: ps_check_def Let_def cm fs_pop_file_def)
  next
    case False
    then have mpos: "0 < length m" by auto
    then have ne: "\<not> eat_tail sf1" using g(3) by simp
    have cmp: "g_strcmp0 ?input m \<longleftrightarrow> ?input = m"
      using cstr_eq_iff [OF m, of ?input] by (simp add: g_strcmp0_def cm)
    show ?thesis
    proof (cases "?input = m \<and> erase")
      case True
      then show ?thesis
        using False getn cmp g ne
        by (auto simp: ps_check_def Let_def cm intro!: exI [of _ sf1])
    next
      case nomatch: False
      let ?sf2 = "foldl sf_put sf1 (rev ?input)"
      have put: "fs_put_n ((fs ps)\<lparr>files := sf1 # rest\<rparr>) ?input (length ?input)
                   = Inr ((fs ps)\<lparr>files := ?sf2 # rest\<rparr>)"
        using fs_put_n_whole [of "(fs ps)\<lparr>files := sf1 # rest\<rparr>" sf1 rest ?input] False
        by simp
      have p2: "pending ?sf2 = pending sf"
        using ne g(2) by (simp add: pending_foldl_sf_put)
      have b2: "bytes_of ?sf2 \<subseteq> bytes_of sf"
      proof -
        have "set ?input \<subseteq> set (pending sf)"
          by (simp add: set_take_subset)
        also have "\<dots> \<subseteq> bytes_of sf"
          by (auto simp: pending_def bytes_of_def dest: in_set_dropD)
        finally show ?thesis
          using g(6) by (simp add: bytes_of_foldl_sf_put)
      qed
      show ?thesis
        using False nomatch getn cmp put p2 b2 ne g(4)
        by (auto simp: ps_check_def Let_def cm eat_tail_foldl_sf_put sf_cfg_foldl_sf_put
                 intro!: exI [of _ ?sf2])
    qed
  qed
qed

lemma ps_check_empty:
  assumes "files (fs ps) = sf # rest" and "sg \<longrightarrow> CHR 0xFF \<notin> set (buf sf)"
    and "NUL \<notin> set m" and "take (length m) (pending sf) = []"
  shows "ps_check sg ps m erase =
           Inr (False, ps\<lparr>match_buf := m, check_buf := [],
                           fs := (fs ps)\<lparr>files := rest,
                                         files_prev := (if rest = [] then [] else files_prev (fs ps))\<rparr>\<rparr>)"
  using ps_check_probe_aux [OF assms(1-3), where erase = erase] assms(4) by simp

lemma ps_check_nonempty:
  assumes "files (fs ps) = sf # rest" and "sg \<longrightarrow> CHR 0xFF \<notin> set (buf sf)"
    and "NUL \<notin> set m" and "take (length m) (pending sf) \<noteq> []"
  shows "\<exists>sf'. ps_check sg ps m erase =
              Inr (take (length m) (pending sf) = m,
                   ps\<lparr>match_buf := m, check_buf := take (length m) (pending sf),
                      fs := (fs ps)\<lparr>files := sf' # rest\<rparr>\<rparr>)
             \<and> pending sf' = (if take (length m) (pending sf) = m \<and> erase
                              then drop (length m) (pending sf) else pending sf)
             \<and> \<not> eat_tail sf' \<and> sf_cfg sf' = sf_cfg sf \<and> bytes_of sf' \<subseteq> bytes_of sf"
  using ps_check_probe_aux [OF assms(1-3), where erase = erase] assms(4) by simp

text \<open>
  The probe for a delimiter \<open>m\<close> (a C string), by the bytes the top file holds: it reads
  up to \<open>length m\<close> of them. If it reads nothing it pops the top file and returns no-match.
  If the bytes read are \<open>m\<close> and \<open>erase\<close> is set they stay consumed and it returns match.
  Otherwise every byte read is put back, the file holds the same bytes as before, and the
  result says whether the bytes read were \<open>m\<close>. The file keeps its configuration and the
  parser state outside the input stack and the two scratch buffers is untouched. Where
  plain \<^verbatim>\<open>char\<close> is signed this needs a put-back buffer without the byte 0xFF.
\<close>

lemma ps_check_by_pending:
  assumes "files (fs ps) = sf # rest" and "sg \<longrightarrow> CHR 0xFF \<notin> set (buf sf)"
    and "NUL \<notin> set m"
  shows "(take (length m) (pending sf) = [] \<longrightarrow>
           (\<exists>ps'. ps_check sg ps m erase = Inr (False, ps') \<and> files (fs ps') = rest
              \<and> ps' = ps\<lparr>fs := fs ps', check_buf := check_buf ps', match_buf := match_buf ps'\<rparr>))
       \<and> (take (length m) (pending sf) \<noteq> [] \<and> take (length m) (pending sf) = m \<and> erase \<longrightarrow>
           (\<exists>ps' sf'. ps_check sg ps m erase = Inr (True, ps') \<and> files (fs ps') = sf' # rest
              \<and> pending sf' = drop (length m) (pending sf) \<and> sf_cfg sf' = sf_cfg sf
              \<and> ps' = ps\<lparr>fs := fs ps', check_buf := check_buf ps', match_buf := match_buf ps'\<rparr>))
       \<and> (take (length m) (pending sf) \<noteq> [] \<and> \<not> (take (length m) (pending sf) = m \<and> erase) \<longrightarrow>
           (\<exists>ps' sf'. ps_check sg ps m erase = Inr (take (length m) (pending sf) = m, ps')
              \<and> files (fs ps') = sf' # rest
              \<and> pending sf' = pending sf \<and> sf_cfg sf' = sf_cfg sf
              \<and> ps' = ps\<lparr>fs := fs ps', check_buf := check_buf ps', match_buf := match_buf ps'\<rparr>))"
proof -
  let ?input = "take (length m) (pending sf)"
  have empty: "\<exists>ps'. ps_check sg ps m erase = Inr (False, ps') \<and> files (fs ps') = rest
      \<and> ps' = ps\<lparr>fs := fs ps', check_buf := check_buf ps', match_buf := match_buf ps'\<rparr>"
    if "?input = []"
  proof -
    let ?ps' = "ps\<lparr>match_buf := m, check_buf := [],
                   fs := (fs ps)\<lparr>files := rest,
                                 files_prev := (if rest = [] then [] else files_prev (fs ps))\<rparr>\<rparr>"
    have "ps_check sg ps m erase = Inr (False, ?ps')"
      using ps_check_empty [OF assms that] by simp
    then show ?thesis
      by (intro exI [of _ ?ps']) simp
  qed
  have nonempty: "\<exists>ps' sf'. ps_check sg ps m erase = Inr (?input = m, ps')
      \<and> files (fs ps') = sf' # rest
      \<and> pending sf' = (if ?input = m \<and> erase then drop (length m) (pending sf) else pending sf)
      \<and> sf_cfg sf' = sf_cfg sf
      \<and> ps' = ps\<lparr>fs := fs ps', check_buf := check_buf ps', match_buf := match_buf ps'\<rparr>"
    if some: "?input \<noteq> []"
  proof -
    obtain sf' where r: "ps_check sg ps m erase =
          Inr (?input = m, ps\<lparr>match_buf := m, check_buf := ?input,
                              fs := (fs ps)\<lparr>files := sf' # rest\<rparr>\<rparr>)"
        "pending sf' = (if ?input = m \<and> erase then drop (length m) (pending sf) else pending sf)"
        "sf_cfg sf' = sf_cfg sf"
      using ps_check_nonempty [OF assms some, of erase] by blast
    let ?ps' = "ps\<lparr>match_buf := m, check_buf := ?input, fs := (fs ps)\<lparr>files := sf' # rest\<rparr>\<rparr>"
    show ?thesis
      using r by (intro exI [of _ ?ps'] exI [of _ sf']) simp
  qed
  show ?thesis
  proof (intro conjI impI)
    assume "?input = []"
    then show "\<exists>ps'. ps_check sg ps m erase = Inr (False, ps') \<and> files (fs ps') = rest
      \<and> ps' = ps\<lparr>fs := fs ps', check_buf := check_buf ps', match_buf := match_buf ps'\<rparr>"
      by (rule empty)
  next
    assume a: "?input \<noteq> [] \<and> ?input = m \<and> erase"
    then obtain ps' sf' where r: "ps_check sg ps m erase = Inr (?input = m, ps')"
        "files (fs ps') = sf' # rest"
        "pending sf' = (if ?input = m \<and> erase then drop (length m) (pending sf) else pending sf)"
        "sf_cfg sf' = sf_cfg sf"
        "ps' = ps\<lparr>fs := fs ps', check_buf := check_buf ps', match_buf := match_buf ps'\<rparr>"
      using nonempty by blast
    show "\<exists>ps' sf'. ps_check sg ps m erase = Inr (True, ps') \<and> files (fs ps') = sf' # rest
              \<and> pending sf' = drop (length m) (pending sf) \<and> sf_cfg sf' = sf_cfg sf
              \<and> ps' = ps\<lparr>fs := fs ps', check_buf := check_buf ps', match_buf := match_buf ps'\<rparr>"
      using a r by (intro exI [of _ ps'] exI [of _ sf']) simp
  next
    assume a: "?input \<noteq> [] \<and> \<not> (?input = m \<and> erase)"
    then obtain ps' sf' where r: "ps_check sg ps m erase = Inr (?input = m, ps')"
        "files (fs ps') = sf' # rest"
        "pending sf' = (if ?input = m \<and> erase then drop (length m) (pending sf) else pending sf)"
        "sf_cfg sf' = sf_cfg sf"
        "ps' = ps\<lparr>fs := fs ps', check_buf := check_buf ps', match_buf := match_buf ps'\<rparr>"
      using nonempty by blast
    show "\<exists>ps' sf'. ps_check sg ps m erase = Inr (?input = m, ps')
              \<and> files (fs ps') = sf' # rest
              \<and> pending sf' = pending sf \<and> sf_cfg sf' = sf_cfg sf
              \<and> ps' = ps\<lparr>fs := fs ps', check_buf := check_buf ps', match_buf := match_buf ps'\<rparr>"
      using a r by (intro exI [of _ ps'] exI [of _ sf']) auto
  qed
qed

lemma ps_check_by_pending_example:
  "files (fs (parser_on (one_file (plain_file ''-<x'')) [])) = plain_file ''-<x'' # []
   \<and> CHR 0xFF \<notin> set (buf (plain_file ''-<x''))
   \<and> NUL \<notin> set ''-<''
   \<and> take (length ''-<'') (pending (plain_file ''-<x'')) = ''-<''
   \<and> (\<exists>ps' sf'. ps_check True (parser_on (one_file (plain_file ''-<x'')) []) ''-<'' True
                    = Inr (True, ps')
          \<and> files (fs ps') = sf' # [] \<and> pending sf' = ''x'')
   \<and> (\<exists>ps' sf'. ps_check True (parser_on (one_file (plain_file ''-<x'')) []) ''-<'' False
                    = Inr (True, ps')
          \<and> files (fs ps') = sf' # [] \<and> pending sf' = ''-<x'')"
proof -
  let ?ps = "parser_on (one_file (plain_file ''-<x'')) []"
  have a: "files (fs ?ps) = plain_file ''-<x'' # []"
    by (simp add: parser_on_def one_file_def)
  have b: "CHR 0xFF \<notin> set (buf (plain_file ''-<x''))"
    by (simp add: plain_file_def)
  have b': "True \<longrightarrow> CHR 0xFF \<notin> set (buf (plain_file ''-<x''))"
    using b by simp
  have c: "NUL \<notin> set ''-<''"
    by (simp add: NUL_def)
  have d: "pending (plain_file ''-<x'') = ''-<x''"
    by (simp add: pending_def plain_file_def)
  have e: "take (length ''-<'') (pending (plain_file ''-<x'')) = ''-<''"
    by (simp add: d)
  have f: "drop (length ''-<'') (pending (plain_file ''-<x'')) = ''x''"
    by (simp add: d)
  have "\<exists>ps' sf'. ps_check True ?ps ''-<'' True = Inr (True, ps') \<and> files (fs ps') = sf' # []
          \<and> pending sf' = drop (length ''-<'') (pending (plain_file ''-<x''))
          \<and> sf_cfg sf' = sf_cfg (plain_file ''-<x'')
          \<and> ps' = ?ps\<lparr>fs := fs ps', check_buf := check_buf ps', match_buf := match_buf ps'\<rparr>"
    using conjunct1 [OF conjunct2 [OF ps_check_by_pending [OF a b' c, where erase = True]]]
    by (simp add: d)
  then obtain ps1 sf1 where one: "ps_check True ?ps ''-<'' True = Inr (True, ps1)"
      "files (fs ps1) = sf1 # []" "pending sf1 = ''x''"
    unfolding d by auto
  have "\<exists>ps' sf'. ps_check True ?ps ''-<'' False
            = Inr (take (length ''-<'') (pending (plain_file ''-<x'')) = ''-<'', ps')
          \<and> files (fs ps') = sf' # []
          \<and> pending sf' = pending (plain_file ''-<x'')
          \<and> sf_cfg sf' = sf_cfg (plain_file ''-<x'')
          \<and> ps' = ?ps\<lparr>fs := fs ps', check_buf := check_buf ps', match_buf := match_buf ps'\<rparr>"
    using conjunct2 [OF conjunct2 [OF ps_check_by_pending [OF a b' c, where erase = False]]]
    by (simp add: d)
  then obtain ps2 sf2 where two: "ps_check True ?ps ''-<'' False = Inr (True, ps2)"
      "files (fs ps2) = sf2 # []" "pending sf2 = ''-<x''"
    unfolding d by auto
  show ?thesis
    using a b c e one two by simp
qed

text \<open>
  Claim C4: the probe reads up to \<open>length m\<close> bytes from the top file; on an empty read
  (immediate end of the file) it pops the file and returns no-match; on a match with
  \<open>erase\<close> set the bytes stay consumed; otherwise it puts every byte read back, so that
  the input is unchanged, and returns whether the bytes read were \<open>m\<close>.

  Where plain \<^verbatim>\<open>char\<close> is signed the code breaks this on the byte 0xFF: \<^verbatim>\<open>sf_get\<close> takes a
  byte of the put-back buffer as \<^verbatim>\<open>ret = sf->buf->str[ pos ]\<close>, which for 0xFF is \<open>-1\<close>, the
  value of \<^verbatim>\<open>EOF\<close>. On a file holding \<^verbatim>\<open>-\<close>, 0xFF, \<^verbatim>\<open>Z\<close> the probe for \<^verbatim>\<open>-<\<close> reads \<^verbatim>\<open>-\<close>
  and 0xFF from the stream, finds no match and puts both back. Before the probe three
  bytes can be read from the file; after it the read ends behind \<^verbatim>\<open>-\<close>. With unsigned
  \<^verbatim>\<open>char\<close> the file left by the probe is read in full. And a probe on a file whose next
  byte is a put-back 0xFF reads nothing and pops the file, which still holds \<^verbatim>\<open>Z\<close>.
\<close>

theorem ps_check_drops_bytes:
  "ps_check True (parser_on (one_file (plain_file [CHR ''-'', CHR 0xFF, CHR ''Z''])) []) ''-<'' True
     = Inr (False, (parser_on (one_file ((plain_file ''Z'')\<lparr>buf := [CHR 0xFF, CHR ''-'']\<rparr>)) [])
                     \<lparr>check_buf := [CHR ''-'', CHR 0xFF], match_buf := ''-<''\<rparr>)
   \<and> fst (fs_get_n True (one_file (plain_file [CHR ''-'', CHR 0xFF, CHR ''Z''])) 3)
       = [CHR ''-'', CHR 0xFF, CHR ''Z'']
   \<and> fst (fs_get_n True (one_file ((plain_file ''Z'')\<lparr>buf := [CHR 0xFF, CHR ''-'']\<rparr>)) 3) = ''-''
   \<and> fst (fs_get_n False (one_file ((plain_file ''Z'')\<lparr>buf := [CHR 0xFF, CHR ''-'']\<rparr>)) 3)
       = [CHR ''-'', CHR 0xFF, CHR ''Z'']
   \<and> ps_check True (parser_on (one_file ((plain_file ''Z'')\<lparr>buf := [CHR 0xFF]\<rparr>)) []) ''-<'' True
       = Inr (False, (parser_on no_files [])\<lparr>check_buf := [], match_buf := ''-<''\<rparr>)"
  by (simp add: ps_check_def fs_get_n_def fs_get_def fs_put_n_def fs_put_def fs_pop_file_def
      sf_get_no_eat sf_fetch_def sf_put_def g_strcmp0_def cstr_def strlen_def NUL_def
      parser_on_def one_file_def no_files_def plain_file_def Let_def numeral_3_eq_3 byte_eval)

theorem ps_check_drops_bytes_witness:
  "\<exists>ps'. ps_check True (parser_on (one_file (plain_file [CHR ''-'', CHR 0xFF, CHR ''Z''])) [])
                ''-<'' True = Inr (False, ps')
         \<and> fst (fs_get_n True (fs ps') 3)
             \<noteq> fst (fs_get_n True
                      (fs (parser_on (one_file (plain_file [CHR ''-'', CHR 0xFF, CHR ''Z''])) [])) 3)"
proof -
  let ?ps' = "(parser_on (one_file ((plain_file ''Z'')\<lparr>buf := [CHR 0xFF, CHR ''-'']\<rparr>)) [])
                \<lparr>check_buf := [CHR ''-'', CHR 0xFF], match_buf := ''-<''\<rparr>"
  have a: "fs ?ps' = one_file ((plain_file ''Z'')\<lparr>buf := [CHR 0xFF, CHR ''-'']\<rparr>)"
    and b: "fs (parser_on (one_file (plain_file [CHR ''-'', CHR 0xFF, CHR ''Z''])) [])
              = one_file (plain_file [CHR ''-'', CHR 0xFF, CHR ''Z''])"
    by (simp_all add: parser_on_def)
  show ?thesis
    using ps_check_drops_bytes by (intro exI [of _ ?ps']) (simp only: a b, simp)
qed

section \<open>The plus prefix of a macro body\<close>

text \<open>
  Claim C7: when the collected body starts with \<^verbatim>\<open>+\<close>, \<^verbatim>\<open>ps_get_macro\<close> sets
  \<^verbatim>\<open>eat_tail\<close> on the top file and returns the body without the \<^verbatim>\<open>+\<close> (read as a C
  string), and that string is what \<^verbatim>\<open>ps_eval_cmd\<close> dispatches on. On a file with
  \<^verbatim>\<open>eat_tail\<close> set, \<^verbatim>\<open>sf_get\<close> reads once; if that read is a byte, the byte is dropped
  and the result is that of a second read, and if it is \<^verbatim>\<open>EOF\<close>, \<^verbatim>\<open>EOF\<close> is returned.
  Either way the flag is clear afterwards.
\<close>

theorem plus_prefix_eats_tail:
  assumes "files (fs ps) = sf # rest" and "first_byte (macro_buf ps) = CHR ''+''"
  shows "ps_get_macro ps =
           Inr (cstr (tl (macro_buf ps)), ps\<lparr>fs := (fs ps)\<lparr>files := sf\<lparr>eat_tail := True\<rparr> # rest\<rparr>\<rparr>)
       \<and> ps_eval_cmd sg ev ps =
           ps_dispatch sg ev (ps\<lparr>fs := (fs ps)\<lparr>files := sf\<lparr>eat_tail := True\<rparr> # rest\<rparr>\<rparr>)
             (cstr (tl (macro_buf ps)))
       \<and> (fst (sf_fetch sg (sf\<lparr>eat_tail := True\<rparr>)) \<noteq> EOF \<longrightarrow>
            sf_get sg (sf\<lparr>eat_tail := True\<rparr>) =
              sf_fetch sg ((snd (sf_fetch sg (sf\<lparr>eat_tail := True\<rparr>)))\<lparr>eat_tail := False\<rparr>))
       \<and> (fst (sf_fetch sg (sf\<lparr>eat_tail := True\<rparr>)) = EOF \<longrightarrow>
            sf_get sg (sf\<lparr>eat_tail := True\<rparr>) =
              (EOF, (snd (sf_fetch sg (sf\<lparr>eat_tail := True\<rparr>)))\<lparr>eat_tail := False\<rparr>))"
proof -
  have g: "ps_get_macro ps =
      Inr (cstr (tl (macro_buf ps)), ps\<lparr>fs := (fs ps)\<lparr>files := sf\<lparr>eat_tail := True\<rparr> # rest\<rparr>\<rparr>)"
    using assms by (simp add: ps_get_macro_def ps_upd_topfile_def)
  have e: "ps_eval_cmd sg ev ps =
      ps_dispatch sg ev (ps\<lparr>fs := (fs ps)\<lparr>files := sf\<lparr>eat_tail := True\<rparr> # rest\<rparr>\<rparr>)
        (cstr (tl (macro_buf ps)))"
    by (simp add: ps_eval_cmd_def g)
  show ?thesis
    using g e by (simp add: sf_get_eat split: prod.splits)
qed

theorem plus_prefix_eats_tail_witness:
  "files (fs (in_macro_state ''+/c'' '' Y'')) = macro_file '' Y'' # []
   \<and> first_byte (macro_buf (in_macro_state ''+/c'' '' Y'')) = CHR ''+''
   \<and> ps_get_macro (in_macro_state ''+/c'' '' Y'')
       = Inr (''/c'', in_macro_state ''+/c'' '' Y''
                       \<lparr>fs := one_file ((macro_file '' Y'')\<lparr>eat_tail := True\<rparr>)\<rparr>)
   \<and> fst (sf_fetch True ((macro_file '' Y'')\<lparr>eat_tail := True\<rparr>)) \<noteq> EOF
   \<and> fst (sf_get True ((macro_file '' Y'')\<lparr>eat_tail := True\<rparr>)) = of_char CHR ''Y''"
proof -
  let ?ps = "in_macro_state ''+/c'' '' Y''"
  have a: "files (fs ?ps) = macro_file '' Y'' # []"
    by (simp add: in_macro_state_def parser_on_def one_file_def)
  have b: "first_byte (macro_buf ?ps) = CHR ''+''"
    by (simp add: in_macro_state_def first_byte_def)
  have c: "cstr (tl (macro_buf ?ps)) = ''/c''"
    by (simp add: in_macro_state_def cstr_def NUL_def)
  have d: "fst (sf_fetch True ((macro_file '' Y'')\<lparr>eat_tail := True\<rparr>)) \<noteq> EOF"
    by (simp add: sf_fetch_def macro_file_def plain_file_def EOF_def Let_def)
  have e: "fst (sf_fetch True ((snd (sf_fetch True ((macro_file '' Y'')\<lparr>eat_tail := True\<rparr>)))
                  \<lparr>eat_tail := False\<rparr>)) = of_char CHR ''Y''"
    by (simp add: sf_fetch_def macro_file_def plain_file_def EOF_def Let_def)
  show ?thesis
    using a b d e plus_prefix_eats_tail [OF a b, of True no_host]
    by (simp add: c in_macro_state_def parser_on_def one_file_def cstr_def NUL_def)
qed


section \<open>The hook-end sequence\<close>

lemma ps_out_keeps:
  "ps_out ps c = Inr ps' \<Longrightarrow> ps' = ps\<lparr>outputs := outputs ps'\<rparr>"
  by (auto simp: ps_out_def split: list.splits if_splits)

lemma ps_out_chars_keeps:
  "ps_out_chars sg ps cs = Inr ps' \<Longrightarrow> ps' = ps\<lparr>outputs := outputs ps'\<rparr>"
proof (induction cs arbitrary: ps)
  case Nil
  then show ?case by simp
next
  case (Cons c cs)
  then obtain ps1 where o: "ps_out ps (gchar_to_int sg c) = Inr ps1"
      and r: "ps_out_chars sg ps1 cs = Inr ps'"
    by (auto split: sum.splits)
  have "ps1 = ps\<lparr>outputs := outputs ps1\<rparr>"
    using ps_out_keeps [OF o] .
  moreover have "ps' = ps1\<lparr>outputs := outputs ps'\<rparr>"
    using Cons.IH [OF r] .
  ultimately have "ps' = (ps\<lparr>outputs := outputs ps1\<rparr>)\<lparr>outputs := outputs ps'\<rparr>"
    by metis
  then show ?case
    by simp
qed


lemma ps_out_str_keeps:
  "ps_out_str sg ps x = Inr ps' \<Longrightarrow> ps' = ps\<lparr>outputs := outputs ps'\<rparr>"
  by (cases x) (auto simp: ps_out_str_def dest: ps_out_chars_keeps)

lemma ps_apply_post_cases:
  "(\<not> post_push ps \<and> \<not> post_pop ps \<longrightarrow> ps_apply_post ps = Inr ps)
   \<and> (post_push ps \<and> \<not> post_pop ps \<and> files (fs ps) = sf # rest \<and> files_prev (fs ps) = p # prev \<longrightarrow>
        ps_apply_post ps =
          Inr (ps\<lparr>post_push := False, fs := \<lparr>files = p # sf # rest, files_prev = prev\<rparr>\<rparr>))
   \<and> (\<not> post_push ps \<and> post_pop ps \<and> files (fs ps) = sf # rest \<longrightarrow>
        ps_apply_post ps =
          Inr (ps\<lparr>post_pop := False,
                  fs := \<lparr>files = rest,
                         files_prev = (if rest = [] then [] else files_prev (fs ps))\<rparr>\<rparr>))
   \<and> (post_push ps \<and> post_pop ps \<and> files (fs ps) = sf # rest \<and> files_prev (fs ps) = p # prev \<longrightarrow>
        ps_apply_post ps =
          Inr (ps\<lparr>post_push := False, post_pop := False,
                  fs := \<lparr>files = sf # rest, files_prev = prev\<rparr>\<rparr>))"
  by (auto simp: ps_apply_post_def fs_pop_file_def Let_def)

text \<open>
  Claim C2: \<^verbatim>\<open>ps_process_hook_end_seq\<close> decrements \<^verbatim>\<open>in_macro\<close>. A negative result is
  the fatal error, reported at the top file (a hook-end was matched there). A result still positive writes the hook-end of the current hook to
  the output and pops the current hook, without \<^verbatim>\<open>break\<close>. A result of zero dispatches
  the body with \<^verbatim>\<open>ps_eval_cmd\<close>, clears the macro mark of the top file, pops the current
  hook and then applies the deferred flags: \<^verbatim>\<open>post_push\<close> makes the file that
  \<^verbatim>\<open>fs_push_file_delayed\<close> left behind the top (the cell at \<^verbatim>\<open>->prev\<close>) the new top and
  \<^verbatim>\<open>post_pop\<close> pops the top file; each flag is cleared. The four combinations of the
  flags are listed; \<open>brk\<close> is what the dispatcher returned.
\<close>

theorem hook_end_sequence:
  "(in_macro ps < 1 \<and> files (fs ps) \<noteq> [] \<longrightarrow>
      ps_process_hook_end_seq sg ev ps
        = Inl (Mucgly_fatal ''Internal error in macro status...'', ps\<lparr>in_macro := in_macro ps - 1\<rparr>))
   \<and> (1 < in_macro ps \<and> files (fs ps) = sf # rest \<and> curhook sf = h # hs
        \<and> ps_out_str sg (ps\<lparr>in_macro := in_macro ps - 1\<rparr>) (Some (hend h)) = Inr ps1 \<longrightarrow>
      ps_process_hook_end_seq sg ev ps
        = Inr (False, ps1\<lparr>fs := (fs ps)\<lparr>files := sf\<lparr>curhook := hs\<rparr> # rest\<rparr>\<rparr>))
   \<and> (in_macro ps = 1 \<and> ps_eval_cmd sg ev (ps\<lparr>in_macro := 0\<rparr>) = Inr (brk, ps2)
        \<and> files (fs ps2) = sf2 # rest2 \<and> curhook sf2 = h2 # hs2 \<longrightarrow>
      (let top2 = sf2\<lparr>macro := False, curhook := hs2\<rparr> in
        (\<not> post_push ps2 \<and> \<not> post_pop ps2 \<longrightarrow>
           ps_process_hook_end_seq sg ev ps
             = Inr (brk, ps2\<lparr>fs := (fs ps2)\<lparr>files := top2 # rest2\<rparr>\<rparr>))
      \<and> (post_push ps2 \<and> \<not> post_pop ps2 \<and> files_prev (fs ps2) = p # prev \<longrightarrow>
           ps_process_hook_end_seq sg ev ps
             = Inr (brk, ps2\<lparr>post_push := False,
                            fs := \<lparr>files = p # top2 # rest2, files_prev = prev\<rparr>\<rparr>))
      \<and> (\<not> post_push ps2 \<and> post_pop ps2 \<longrightarrow>
           ps_process_hook_end_seq sg ev ps
             = Inr (brk, ps2\<lparr>post_pop := False,
                            fs := \<lparr>files = rest2,
                                   files_prev = (if rest2 = [] then [] else files_prev (fs ps2))\<rparr>\<rparr>))
      \<and> (post_push ps2 \<and> post_pop ps2 \<and> files_prev (fs ps2) = p # prev \<longrightarrow>
           ps_process_hook_end_seq sg ev ps
             = Inr (brk, ps2\<lparr>post_push := False, post_pop := False,
                            fs := \<lparr>files = top2 # rest2, files_prev = prev\<rparr>\<rparr>))))"
proof (intro conjI impI)
  assume "in_macro ps < 1 \<and> files (fs ps) \<noteq> []"
  then show "ps_process_hook_end_seq sg ev ps
        = Inl (Mucgly_fatal ''Internal error in macro status...'', ps\<lparr>in_macro := in_macro ps - 1\<rparr>)"
    by (simp add: ps_process_hook_end_seq_def Let_def split: list.splits)
next
  assume a: "1 < in_macro ps \<and> files (fs ps) = sf # rest \<and> curhook sf = h # hs
        \<and> ps_out_str sg (ps\<lparr>in_macro := in_macro ps - 1\<rparr>) (Some (hend h)) = Inr ps1"
  then have k: "ps1 = (ps\<lparr>in_macro := in_macro ps - 1\<rparr>)\<lparr>outputs := outputs ps1\<rparr>"
    using ps_out_str_keeps by blast
  have f: "fs ps1 = fs ps"
    by (subst k) simp
  show "ps_process_hook_end_seq sg ev ps
        = Inr (False, ps1\<lparr>fs := (fs ps)\<lparr>files := sf\<lparr>curhook := hs\<rparr> # rest\<rparr>\<rparr>)"
    using a f
    by (simp add: ps_process_hook_end_seq_def Let_def ps_current_hookend_def ps_current_hook_def
        ps_upd_topfile_def ps_pop_curhook_def)
next
  assume a: "in_macro ps = 1 \<and> ps_eval_cmd sg ev (ps\<lparr>in_macro := 0\<rparr>) = Inr (brk, ps2)
        \<and> files (fs ps2) = sf2 # rest2 \<and> curhook sf2 = h2 # hs2"
  let ?top2 = "sf2\<lparr>macro := False, curhook := hs2\<rparr>"
  let ?ps4 = "ps2\<lparr>fs := (fs ps2)\<lparr>files := ?top2 # rest2\<rparr>\<rparr>"
  have seq: "ps_process_hook_end_seq sg ev ps =
      (case ps_apply_post ?ps4 of Inl e \<Rightarrow> Inl e | Inr ps5 \<Rightarrow> Inr (brk, ps5))"
    using a
    by (simp add: ps_process_hook_end_seq_def Let_def ps_upd_topfile_def ps_pop_curhook_def
        sf_unmark_macro_def)
  note post = ps_apply_post_cases [of ?ps4 ?top2 rest2 p prev]
  show "let top2 = sf2\<lparr>macro := False, curhook := hs2\<rparr> in
        (\<not> post_push ps2 \<and> \<not> post_pop ps2 \<longrightarrow>
           ps_process_hook_end_seq sg ev ps
             = Inr (brk, ps2\<lparr>fs := (fs ps2)\<lparr>files := top2 # rest2\<rparr>\<rparr>))
      \<and> (post_push ps2 \<and> \<not> post_pop ps2 \<and> files_prev (fs ps2) = p # prev \<longrightarrow>
           ps_process_hook_end_seq sg ev ps
             = Inr (brk, ps2\<lparr>post_push := False,
                            fs := \<lparr>files = p # top2 # rest2, files_prev = prev\<rparr>\<rparr>))
      \<and> (\<not> post_push ps2 \<and> post_pop ps2 \<longrightarrow>
           ps_process_hook_end_seq sg ev ps
             = Inr (brk, ps2\<lparr>post_pop := False,
                            fs := \<lparr>files = rest2,
                                   files_prev = (if rest2 = [] then [] else files_prev (fs ps2))\<rparr>\<rparr>))
      \<and> (post_push ps2 \<and> post_pop ps2 \<and> files_prev (fs ps2) = p # prev \<longrightarrow>
           ps_process_hook_end_seq sg ev ps
             = Inr (brk, ps2\<lparr>post_push := False, post_pop := False,
                            fs := \<lparr>files = top2 # rest2, files_prev = prev\<rparr>\<rparr>))"
    unfolding Let_def seq using post by simp
qed


theorem hook_end_sequence_witness:
  "in_macro (in_macro_state ''/c'' '' Y'') = 1
   \<and> ps_eval_cmd True no_host ((in_macro_state ''/c'' '' Y'')\<lparr>in_macro := 0\<rparr>)
       = Inr (False, (in_macro_state ''/c'' '' Y'')\<lparr>in_macro := 0\<rparr>)
   \<and> files (fs ((in_macro_state ''/c'' '' Y'')\<lparr>in_macro := 0\<rparr>)) = macro_file '' Y'' # []
   \<and> curhook (macro_file '' Y'') = default_hook # []
   \<and> \<not> post_push ((in_macro_state ''/c'' '' Y'')\<lparr>in_macro := 0\<rparr>)
   \<and> \<not> post_pop ((in_macro_state ''/c'' '' Y'')\<lparr>in_macro := 0\<rparr>)
   \<and> ps_process_hook_end_seq True no_host (in_macro_state ''/c'' '' Y'')
       = Inr (False, (parser_on (one_file (plain_file '' Y'')) [stdout_sink [] False])
                       \<lparr>macro_buf := ''/c''\<rparr>)
   \<and> in_macro (parser_on (one_file (plain_file '' Y'')) [stdout_sink [] False]) < 1
   \<and> files (fs (parser_on (one_file (plain_file '' Y'')) [stdout_sink [] False])) \<noteq> []
   \<and> ps_process_hook_end_seq True no_host (parser_on (one_file (plain_file '' Y'')) [stdout_sink [] False])
       = Inl (Mucgly_fatal ''Internal error in macro status...'',
              (parser_on (one_file (plain_file '' Y'')) [stdout_sink [] False])\<lparr>in_macro := - 1\<rparr>)"
proof -
  let ?ps = "in_macro_state ''/c'' '' Y''"
  let ?base = "parser_on (one_file (plain_file '' Y'')) [stdout_sink [] False]"
  have a: "in_macro ?ps = 1"
    by (simp add: in_macro_state_def)
  have b: "ps_eval_cmd True no_host (?ps\<lparr>in_macro := 0\<rparr>) = Inr (False, ?ps\<lparr>in_macro := 0\<rparr>)"
    by (simp add: ps_eval_cmd_def ps_get_macro_def ps_dispatch_def in_macro_state_def
        first_byte_def cstr_def NUL_def)
  have c: "files (fs (?ps\<lparr>in_macro := 0\<rparr>)) = macro_file '' Y'' # []"
    by (simp add: in_macro_state_def parser_on_def one_file_def)
  have d: "curhook (macro_file '' Y'') = default_hook # []"
    by (simp add: macro_file_def)
  have e: "\<not> post_push (?ps\<lparr>in_macro := 0\<rparr>)" "\<not> post_pop (?ps\<lparr>in_macro := 0\<rparr>)"
    by (simp_all add: in_macro_state_def parser_on_def)
  have f: "in_macro ?base < 1" "files (fs ?base) \<noteq> []"
    by (simp_all add: parser_on_def one_file_def)
  note zero = conjunct2 [OF conjunct2 [OF hook_end_sequence
    [where ps = ?ps and sg = True and ev = no_host and brk = False
       and ?ps2.0 = "?ps\<lparr>in_macro := 0\<rparr>" and ?sf2.0 = "macro_file '' Y''" and ?rest2.0 = "[]"
       and ?h2.0 = default_hook and ?hs2.0 = "[]"]]]
  note neg = conjunct1 [OF hook_end_sequence [where ps = ?base and sg = True and ev = no_host]]
  have "ps_process_hook_end_seq True no_host ?ps =
      Inr (False, (?ps\<lparr>in_macro := 0\<rparr>)\<lparr>fs := (fs (?ps\<lparr>in_macro := 0\<rparr>))
        \<lparr>files := (macro_file '' Y'')\<lparr>macro := False, curhook := []\<rparr> # []\<rparr>\<rparr>)"
    using zero a b c d e by (simp add: Let_def)
  moreover have "(?ps\<lparr>in_macro := 0\<rparr>)\<lparr>fs := (fs (?ps\<lparr>in_macro := 0\<rparr>))
        \<lparr>files := (macro_file '' Y'')\<lparr>macro := False, curhook := []\<rparr> # []\<rparr>\<rparr>
      = ?base\<lparr>macro_buf := ''/c''\<rparr>"
    by (simp add: in_macro_state_def parser_on_def one_file_def macro_file_def plain_file_def)
  moreover have g: "in_macro ?base = 0"
    by (simp add: parser_on_def)
  ultimately show ?thesis
    using a b c d e f neg by (simp add: g)
qed

section \<open>End of input inside a macro\<close>

lemma ps_in_keeps: "ps_in sg ps = Inr (c, ps') \<Longrightarrow> ps' = ps\<lparr>fs := fs ps'\<rparr>"
  by (auto simp: ps_in_def split: sum.splits)

lemma ps_put_keeps: "ps_put ps c = Inr ps' \<Longrightarrow> ps' = ps\<lparr>fs := fs ps'\<rparr>"
  by (auto simp: ps_put_def split: sum.splits)

lemma ps_check_keeps:
  "ps_check sg ps m erase = Inr (r, ps') \<Longrightarrow>
   ps' = ps\<lparr>fs := fs ps', check_buf := check_buf ps', match_buf := match_buf ps'\<rparr>"
  by (auto simp: ps_check_def Let_def split: prod.splits sum.splits if_splits)

lemma ps_check_hookesc_keeps:
  "ps_check_hookesc sg ps = Inr (r, ps') \<Longrightarrow>
   ps' = ps\<lparr>fs := fs ps', check_buf := check_buf ps', match_buf := match_buf ps'\<rparr>"
  by (auto simp: ps_check_hookesc_def split: list.splits dest: ps_check_keeps)

text \<open>
  Claim C8, as stated: when the end of input is met inside a macro the processor reports
  a fatal error and exits with failure, with no further output.

  The report is made with \<^verbatim>\<open>mucgly_error\<close>, whose severity word is \<^verbatim>\<open>error\<close>, not with
  \<^verbatim>\<open>mucgly_fatal\<close> (\<^verbatim>\<open>fatal error\<close>): here for a macro holding \<^verbatim>\<open>a\<close> whose file has
  ended.
\<close>

theorem eof_in_macro_aborts_counterexample:
  "ps_step True no_host (in_macro_state ''a'' [])
     = Inl (Mucgly_error ''Got EOF within macro!'', (in_macro_state ''a'' [])\<lparr>fs := no_files\<rparr>)
   \<and> severity (Mucgly_error ''Got EOF within macro!'') \<noteq> Some ''fatal error''"
  by (simp add: ps_step_def ps_in_def fs_get_one_def fs_get_def sf_get_no_eat sf_fetch_def
      fs_get_one_loop.simps fs_pop_file_def ps_check_hook_def ps_process_non_hook_seq_def
      in_macro_state_def parser_on_def one_file_def macro_file_def plain_file_def no_files_def)

text \<open>
  Claim C8, amended: when \<^verbatim>\<open>ps_in\<close> returns \<^verbatim>\<open>EOF\<close> inside a macro, either for the byte
  of a round or for the byte after a matched escape, the round ends in \<^verbatim>\<open>mucgly_error\<close>
  with the message \<^verbatim>\<open>Got EOF within macro!\<close> (severity word \<^verbatim>\<open>error\<close>), which exits
  with \<^verbatim>\<open>EXIT_FAILURE\<close>; the loop stops there, and the outputs at the exit are those
  before the round.
\<close>

theorem eof_in_macro_aborts:
  "(in_macro ps \<noteq> 0 \<and> ps_in sg ps = Inr (EOF, ps1) \<longrightarrow>
      ps_step sg ev ps = Inl (Mucgly_error ''Got EOF within macro!'', ps1)
      \<and> ps_loop (Suc n) sg ev ps = Some (Inl (Mucgly_error ''Got EOF within macro!'', ps1))
      \<and> outputs ps1 = outputs ps)
   \<and> (in_macro ps \<noteq> 0 \<and> ps_in sg ps = Inr (c, psa) \<and> ps_check_hook psa c = Inr True
        \<and> ps_put psa c = Inr psb \<and> ps_check_hookesc sg psb = Inr (True, psc)
        \<and> ps_in sg psc = Inr (EOF, psd) \<longrightarrow>
      ps_step sg ev ps = Inl (Mucgly_error ''Got EOF within macro!'', psd)
      \<and> ps_loop (Suc n) sg ev ps = Some (Inl (Mucgly_error ''Got EOF within macro!'', psd))
      \<and> outputs psd = outputs ps)
   \<and> severity (Mucgly_error ''Got EOF within macro!'') = Some ''error''
   \<and> exits_with_failure (Mucgly_error ''Got EOF within macro!'')"
proof (intro conjI impI)
  assume a: "in_macro ps \<noteq> 0 \<and> ps_in sg ps = Inr (EOF, ps1)"
  then have k: "ps1 = ps\<lparr>fs := fs ps1\<rparr>"
    using ps_in_keeps by blast
  have i: "in_macro ps1 \<noteq> 0"
    using a by (subst k) simp
  show s: "ps_step sg ev ps = Inl (Mucgly_error ''Got EOF within macro!'', ps1)"
    using a i by (simp add: ps_step_def ps_check_hook_def ps_process_non_hook_seq_def)
  show "ps_loop (Suc n) sg ev ps = Some (Inl (Mucgly_error ''Got EOF within macro!'', ps1))"
    using s by simp
  show "outputs ps1 = outputs ps"
    by (subst k) simp
next
  assume a: "in_macro ps \<noteq> 0 \<and> ps_in sg ps = Inr (c, psa) \<and> ps_check_hook psa c = Inr True
        \<and> ps_put psa c = Inr psb \<and> ps_check_hookesc sg psb = Inr (True, psc)
        \<and> ps_in sg psc = Inr (EOF, psd)"
  have ka: "psa = ps\<lparr>fs := fs psa\<rparr>"
    using a ps_in_keeps by blast
  have kb: "psb = psa\<lparr>fs := fs psb\<rparr>"
    using a ps_put_keeps by blast
  have kc: "psc = psb\<lparr>fs := fs psc, check_buf := check_buf psc, match_buf := match_buf psc\<rparr>"
    using a ps_check_hookesc_keeps by blast
  have kd: "psd = psc\<lparr>fs := fs psd\<rparr>"
    using a ps_in_keeps by blast
  have ia: "in_macro psa = in_macro ps" "outputs psa = outputs ps"
    by (subst ka, simp)+
  have ib: "in_macro psb = in_macro psa" "outputs psb = outputs psa"
    by (subst kb, simp)+
  have ic: "in_macro psc = in_macro psb" "outputs psc = outputs psb"
    by (subst kc, simp)+
  have id: "outputs psd = outputs psc"
    by (subst kd) simp
  show s: "ps_step sg ev ps = Inl (Mucgly_error ''Got EOF within macro!'', psd)"
    using a ia ib ic by (simp add: ps_step_def ps_escape_in_macro_def)
  show "ps_loop (Suc n) sg ev ps = Some (Inl (Mucgly_error ''Got EOF within macro!'', psd))"
    using s by simp
  show "outputs psd = outputs ps"
    using ia ib ic id by simp
qed simp_all


lemmas read_eval = ps_in_def fs_get_one_def fs_get_def sf_get_no_eat sf_fetch_def
  fs_get_one_loop.simps fs_pop_file_def Let_def

theorem eof_in_macro_aborts_witness:
  "in_macro (in_macro_state ''a'' []) \<noteq> 0
   \<and> ps_in True (in_macro_state ''a'' []) = Inr (EOF, (in_macro_state ''a'' [])\<lparr>fs := no_files\<rparr>)
   \<and> ps_loop (Suc 0) True no_host (in_macro_state ''a'' [])
       = Some (Inl (Mucgly_error ''Got EOF within macro!'', (in_macro_state ''a'' [])\<lparr>fs := no_files\<rparr>))
   \<and> outputs ((in_macro_state ''a'' [])\<lparr>fs := no_files\<rparr>) = outputs (in_macro_state ''a'' [])
   \<and> in_macro (in_macro_state ''a'' [CHR 0x5C]) \<noteq> 0
   \<and> ps_in True (in_macro_state ''a'' [CHR 0x5C])
       = Inr (92, (in_macro_state ''a'' [])
                    \<lparr>fs := one_file ((macro_file [])\<lparr>column := 1\<rparr>)\<rparr>)
   \<and> ps_check_hook ((in_macro_state ''a'' [])\<lparr>fs := one_file ((macro_file [])\<lparr>column := 1\<rparr>)\<rparr>) 92
       = Inr True
   \<and> ps_put ((in_macro_state ''a'' [])\<lparr>fs := one_file ((macro_file [])\<lparr>column := 1\<rparr>)\<rparr>) 92
       = Inr ((in_macro_state ''a'' [])\<lparr>fs := one_file ((macro_file [])\<lparr>buf := [CHR 0x5C]\<rparr>)\<rparr>)
   \<and> ps_check_hookesc True
         ((in_macro_state ''a'' [])\<lparr>fs := one_file ((macro_file [])\<lparr>buf := [CHR 0x5C]\<rparr>)\<rparr>)
       = Inr (True, (in_macro_state ''a'' [])
                      \<lparr>fs := one_file ((macro_file [])\<lparr>column := 1\<rparr>),
                       check_buf := [CHR 0x5C], match_buf := [CHR 0x5C]\<rparr>)
   \<and> ps_in True ((in_macro_state ''a'' [])
                      \<lparr>fs := one_file ((macro_file [])\<lparr>column := 1\<rparr>),
                       check_buf := [CHR 0x5C], match_buf := [CHR 0x5C]\<rparr>)
       = Inr (EOF, (in_macro_state ''a'' [])
                      \<lparr>fs := no_files, check_buf := [CHR 0x5C], match_buf := [CHR 0x5C]\<rparr>)
   \<and> ps_step True no_host (in_macro_state ''a'' [CHR 0x5C])
       = Inl (Mucgly_error ''Got EOF within macro!'',
              (in_macro_state ''a'' [])
                \<lparr>fs := no_files, check_buf := [CHR 0x5C], match_buf := [CHR 0x5C]\<rparr>)"
proof -
  let ?p = "in_macro_state ''a'' []"
  let ?q = "in_macro_state ''a'' [CHR 0x5C]"
  let ?qa = "?p\<lparr>fs := one_file ((macro_file [])\<lparr>column := 1\<rparr>)\<rparr>"
  let ?qb = "?p\<lparr>fs := one_file ((macro_file [])\<lparr>buf := [CHR 0x5C]\<rparr>)\<rparr>"
  let ?qc = "?p\<lparr>fs := one_file ((macro_file [])\<lparr>column := 1\<rparr>),
                check_buf := [CHR 0x5C], match_buf := [CHR 0x5C]\<rparr>"
  let ?qd = "?p\<lparr>fs := no_files, check_buf := [CHR 0x5C], match_buf := [CHR 0x5C]\<rparr>"
  have a: "in_macro ?p \<noteq> 0" "in_macro ?q \<noteq> 0"
    by (simp_all add: in_macro_state_def)
  have b: "ps_in True ?p = Inr (EOF, ?p\<lparr>fs := no_files\<rparr>)"
    by (simp add: read_eval in_macro_state_def parser_on_def one_file_def macro_file_def
        plain_file_def no_files_def)
  have c: "ps_in True ?q = Inr (92, ?qa)"
    by (simp add: read_eval in_macro_state_def parser_on_def one_file_def macro_file_def
        plain_file_def EOF_def)
  have d: "ps_check_hook ?qa 92 = Inr True"
    by (simp add: ps_check_hook_def in_macro_state_def parser_on_def one_file_def macro_file_def
        plain_file_def byte_eval)
  have e: "ps_put ?qa 92 = Inr ?qb"
    by (simp add: ps_put_def fs_put_def sf_put_def in_macro_state_def parser_on_def one_file_def
        macro_file_def plain_file_def byte_eval Let_def)
  have f: "ps_check_hookesc True ?qb = Inr (True, ?qc)"
    by (simp add: ps_check_hookesc_def ps_check_def fs_get_n_def fs_get_def sf_get_no_eat
        sf_fetch_def strlen_def cstr_def NUL_def g_strcmp0_def in_macro_state_def parser_on_def
        one_file_def macro_file_def plain_file_def byte_eval Let_def)
  have g: "ps_in True ?qc = Inr (EOF, ?qd)"
    by (simp add: read_eval in_macro_state_def parser_on_def one_file_def macro_file_def
        plain_file_def no_files_def)
  note plain = conjunct1 [OF eof_in_macro_aborts
    [where ps = ?p and sg = True and ?ps1.0 = "?p\<lparr>fs := no_files\<rparr>" and ev = no_host and n = 0]]
  note esc = conjunct1 [OF conjunct2 [OF eof_in_macro_aborts
    [where ps = ?q and sg = True and c = 92 and psa = ?qa and psb = ?qb and psc = ?qc
       and psd = ?qd and ev = no_host and n = 0]]]
  show ?thesis
    using a b c d e f g plain esc by simp
qed

section \<open>The suspension protocol\<close>

text \<open>
  One round of the main loop on a state whose top file has a delimiter next: the byte is
  read, found in the lookup table and put back, the escape probe fails, and the round
  goes on with the suspension probe.
\<close>

lemma sf_cfg_fields:
  assumes "sf_cfg a = sf_cfg b"
  shows "hook_1st_chars a = hook_1st_chars b" and "curhook a = curhook b"
    and "hookesc a = hookesc b"
  using arg_cong [OF assms, of hook_1st_chars] arg_cong [OF assms, of curhook]
    arg_cong [OF assms, of hookesc]
  by (simp_all add: sf_cfg_def)

lemma pending_subset: "set (pending sf) \<subseteq> bytes_of sf"
  by (auto simp: pending_def bytes_of_def dest: in_set_dropD)

lemma no_ff_buf:
  assumes "sg \<longrightarrow> CHR 0xFF \<notin> bytes_of sf"
  shows "sg \<longrightarrow> CHR 0xFF \<notin> set (buf sf)"
  using assms by (simp add: bytes_of_def)

lemma ps_in_pending:
  assumes top: "files (fs ps) = sf # rest"
    and asc: "sg \<longrightarrow> CHR 0xFF \<notin> bytes_of sf"
    and p: "pending sf = c # cs"
    and lo: "sg \<longrightarrow> (of_char c :: int) < 128"
  shows "\<exists>sf1. ps_in sg ps = Inr (of_char c, ps\<lparr>fs := (fs ps)\<lparr>files := sf1 # rest\<rparr>\<rparr>)
      \<and> pending sf1 = cs \<and> \<not> eat_tail sf1 \<and> sf_cfg sf1 = sf_cfg sf
      \<and> bytes_of sf1 \<subseteq> bytes_of sf"
proof -
  obtain r sf1 where g: "sf_get sg sf = (r, sf1)" "r = of_char c \<or> r = gchar_to_int sg c"
      "pending sf1 = cs" "\<not> eat_tail sf1" "sf_cfg sf1 = sf_cfg sf" "bytes_of sf1 \<subseteq> bytes_of sf"
    using sf_get_pending_cons [OF no_ff_buf [OF asc] p] by blast
  have "gchar_to_int sg c = of_char c"
    using lo
    by (cases sg) (simp_all add: gchar_to_int_ascii gchar_to_int_def)
  then have r: "r = of_char c"
    using g(2) by auto
  have "fs_get_one sg (fs ps) = Inr (of_char c, (fs ps)\<lparr>files := sf1 # rest\<rparr>)"
    using top g(1) r
    by (simp add: fs_get_one_def fs_get_def fs_get_one_loop.simps of_char_neq_EOF)
  then have "ps_in sg ps = Inr (of_char c, ps\<lparr>fs := (fs ps)\<lparr>files := sf1 # rest\<rparr>\<rparr>)"
    by (simp add: ps_in_def)
  then show ?thesis
    using g(3-6) by (intro exI [of _ sf1]) simp
qed

lemma sf_put_pending:
  assumes "\<not> eat_tail sf"
  shows "pending (sf_put sf c) = c # pending sf" and "\<not> eat_tail (sf_put sf c)"
    and "sf_cfg (sf_put sf c) = sf_cfg sf" and "bytes_of (sf_put sf c) = insert c (bytes_of sf)"
  using assms pending_foldl_sf_put [of sf "[c]"] eat_tail_foldl_sf_put [of sf "[c]"]
    bytes_of_foldl_sf_put [of sf "[c]"]
  by (simp_all add: sf_cfg_sf_put)


lemma ps_step_hook_byte:
  assumes top: "files (fs ps) = sf # rest"
    and asc: "sg \<longrightarrow> CHR 0xFF \<notin> bytes_of sf"
    and p: "pending sf = c # cs"
    and hit: "hook_1st_chars sf c"
    and lo: "sg \<longrightarrow> (of_char c :: int) < 128"
  shows "\<exists>sf2. pending sf2 = c # cs \<and> \<not> eat_tail sf2 \<and> sf_cfg sf2 = sf_cfg sf
      \<and> bytes_of sf2 \<subseteq> bytes_of sf
      \<and> ps_step sg ev ps =
          (case ps_check_hookesc sg (ps\<lparr>fs := (fs ps)\<lparr>files := sf2 # rest\<rparr>\<rparr>) of
             Inl e \<Rightarrow> Inl e
           | Inr (escaped, ps3) \<Rightarrow>
               if escaped
               then (if in_macro ps3 \<noteq> 0 then ps_escape_in_macro sg ev ps3
                     else ps_escape_out_macro sg ps3)
               else ps_hooksusp_seq sg ev ps3)"
proof -
  obtain sf1 where i: "ps_in sg ps = Inr (of_char c, ps\<lparr>fs := (fs ps)\<lparr>files := sf1 # rest\<rparr>\<rparr>)"
      "pending sf1 = cs" "\<not> eat_tail sf1" "sf_cfg sf1 = sf_cfg sf" "bytes_of sf1 \<subseteq> bytes_of sf"
    using ps_in_pending [OF top asc p lo] by blast
  let ?ps1 = "ps\<lparr>fs := (fs ps)\<lparr>files := sf1 # rest\<rparr>\<rparr>"
  let ?sf2 = "sf_put sf1 c"
  have "hook_1st_chars sf1 c"
    using hit sf_cfg_fields(1) [OF i(4)] by simp
  then have h: "ps_check_hook ?ps1 (of_char c) = Inr True"
    using of_char_range [of c]
    by (simp add: ps_check_hook_def of_char_neq_EOF int_to_gchar_of_char)
  have pt: "ps_put ?ps1 (of_char c) = Inr (ps\<lparr>fs := (fs ps)\<lparr>files := ?sf2 # rest\<rparr>\<rparr>)"
    by (simp add: ps_put_def fs_put_def int_to_gchar_of_char)
  have "c \<in> bytes_of sf"
    using pending_subset [of sf] p by auto
  then have b: "bytes_of ?sf2 \<subseteq> bytes_of sf"
    using i(5) by (simp add: sf_put_pending(4) [OF i(3)])
  have st: "ps_step sg ev ps =
          (case ps_check_hookesc sg (ps\<lparr>fs := (fs ps)\<lparr>files := ?sf2 # rest\<rparr>\<rparr>) of
             Inl e \<Rightarrow> Inl e
           | Inr (escaped, ps3) \<Rightarrow>
               if escaped
               then (if in_macro ps3 \<noteq> 0 then ps_escape_in_macro sg ev ps3
                     else ps_escape_out_macro sg ps3)
               else ps_hooksusp_seq sg ev ps3)"
    by (simp only: ps_step_def i(1) h pt sum.case prod.case if_True)
  show ?thesis
    using st b i(2,4) sf_put_pending(1-3) [OF i(3), of c]
    by (intro exI [of _ ?sf2]) simp
qed

lemma take_parallel:
  assumes "\<not> prefix m t" and "\<not> prefix t m"
  shows "take (length m) (t @ tail) \<noteq> m" and "take (length m) (t @ tail) \<noteq> []"
proof -
  show "take (length m) (t @ tail) \<noteq> m"
  proof
    assume "take (length m) (t @ tail) = m"
    then have "prefix m (t @ tail)"
      by (metis take_is_prefix)
    then show False
      using assms by (auto simp: prefix_append)
  qed
  have "m \<noteq> []" "t \<noteq> []"
    using assms by auto
  then show "take (length m) (t @ tail) \<noteq> []"
    by simp
qed

lemma ps_check_miss:
  assumes top: "files (fs ps) = sf # rest"
    and asc: "sg \<longrightarrow> CHR 0xFF \<notin> bytes_of sf"
    and m: "NUL \<notin> set m"
    and p: "pending sf = t @ tail"
    and par: "\<not> prefix m t" "\<not> prefix t m"
  shows "\<exists>sf'. ps_check sg ps m True =
            Inr (False, ps\<lparr>match_buf := m, check_buf := take (length m) (t @ tail),
                            fs := (fs ps)\<lparr>files := sf' # rest\<rparr>\<rparr>)
      \<and> pending sf' = t @ tail \<and> \<not> eat_tail sf' \<and> sf_cfg sf' = sf_cfg sf
      \<and> bytes_of sf' \<subseteq> bytes_of sf"
  using ps_check_nonempty [OF top no_ff_buf [OF asc] m, of True] take_parallel [OF par, of tail]
  by (simp add: p)

lemma ps_check_hit:
  assumes top: "files (fs ps) = sf # rest"
    and asc: "sg \<longrightarrow> CHR 0xFF \<notin> bytes_of sf"
    and m: "NUL \<notin> set m"
    and p: "pending sf = m @ tail"
    and ne: "m \<noteq> []"
  shows "\<exists>sf'. ps_check sg ps m True =
            Inr (True, ps\<lparr>match_buf := m, check_buf := m,
                           fs := (fs ps)\<lparr>files := sf' # rest\<rparr>\<rparr>)
      \<and> pending sf' = tail \<and> \<not> eat_tail sf' \<and> sf_cfg sf' = sf_cfg sf
      \<and> bytes_of sf' \<subseteq> bytes_of sf"
  using ps_check_nonempty [OF top no_ff_buf [OF asc] m, of True] ne
  by (simp add: p)


lemma no_ff_subset:
  assumes "sg \<longrightarrow> CHR 0xFF \<notin> bytes_of sf" and "bytes_of sf' \<subseteq> bytes_of sf"
  shows "sg \<longrightarrow> CHR 0xFF \<notin> bytes_of sf'"
  using assms by blast

lemma ps_step_token:
  assumes top: "files (fs ps) = sf # rest"
    and asc: "sg \<longrightarrow> CHR 0xFF \<notin> bytes_of sf"
    and p: "pending sf = t @ tail"
    and hit: "hook_1st_chars sf (first_byte t)"
    and esc: "NUL \<notin> set (hookesc sf)"
    and par: "\<not> prefix (hookesc sf) t" "\<not> prefix t (hookesc sf)"
    and lo: "sg \<longrightarrow> (of_char (first_byte t) :: int) < 128"
  shows "\<exists>sf3. pending sf3 = t @ tail \<and> \<not> eat_tail sf3 \<and> sf_cfg sf3 = sf_cfg sf
      \<and> bytes_of sf3 \<subseteq> bytes_of sf
      \<and> ps_step sg ev ps =
          ps_hooksusp_seq sg ev
            (ps\<lparr>match_buf := hookesc sf, check_buf := take (length (hookesc sf)) (t @ tail),
                fs := (fs ps)\<lparr>files := sf3 # rest\<rparr>\<rparr>)"
proof -
  obtain c t' where t: "t = c # t'"
    using par(2) by (cases t) auto
  have p': "pending sf = c # (t' @ tail)" and hit': "hook_1st_chars sf c"
    and lo': "sg \<longrightarrow> (of_char c :: int) < 128"
    using p hit lo by (simp_all add: t first_byte_def)
  obtain sf2 where b: "pending sf2 = c # (t' @ tail)" "\<not> eat_tail sf2" "sf_cfg sf2 = sf_cfg sf"
      "bytes_of sf2 \<subseteq> bytes_of sf"
      "ps_step sg ev ps =
          (case ps_check_hookesc sg (ps\<lparr>fs := (fs ps)\<lparr>files := sf2 # rest\<rparr>\<rparr>) of
             Inl e \<Rightarrow> Inl e
           | Inr (escaped, ps3) \<Rightarrow>
               if escaped
               then (if in_macro ps3 \<noteq> 0 then ps_escape_in_macro sg ev ps3
                     else ps_escape_out_macro sg ps3)
               else ps_hooksusp_seq sg ev ps3)"
    using ps_step_hook_byte [OF top asc p' hit' lo', of ev] by blast
  let ?ps2 = "ps\<lparr>fs := (fs ps)\<lparr>files := sf2 # rest\<rparr>\<rparr>"
  have top2: "files (fs ?ps2) = sf2 # rest"
    by simp
  have p2: "pending sf2 = t @ tail"
    using b(1) by (simp add: t)
  have e2: "hookesc sf2 = hookesc sf"
    using sf_cfg_fields(3) [OF b(3)] .
  obtain sf3 where c: "ps_check sg ?ps2 (hookesc sf) True =
            Inr (False, ?ps2\<lparr>match_buf := hookesc sf,
                             check_buf := take (length (hookesc sf)) (t @ tail),
                             fs := (fs ?ps2)\<lparr>files := sf3 # rest\<rparr>\<rparr>)"
      "pending sf3 = t @ tail" "\<not> eat_tail sf3" "sf_cfg sf3 = sf_cfg sf2"
      "bytes_of sf3 \<subseteq> bytes_of sf2"
    using ps_check_miss [OF top2 no_ff_subset [OF asc b(4)] esc p2 par] by blast
  have "ps_check_hookesc sg ?ps2 =
            Inr (False, ps\<lparr>match_buf := hookesc sf,
                            check_buf := take (length (hookesc sf)) (t @ tail),
                            fs := (fs ps)\<lparr>files := sf3 # rest\<rparr>\<rparr>)"
    using c(1) by (simp add: ps_check_hookesc_def e2)
  then have "ps_step sg ev ps =
          ps_hooksusp_seq sg ev
            (ps\<lparr>match_buf := hookesc sf, check_buf := take (length (hookesc sf)) (t @ tail),
                fs := (fs ps)\<lparr>files := sf3 # rest\<rparr>\<rparr>)"
    by (simp only: b(5) sum.case prod.case if_False)
  then show ?thesis
    using c(2-5) b(3,4) by (intro exI [of _ sf3]) auto
qed

lemma ps_step_susp:
  assumes top: "files (fs ps) = sf # rest"
    and asc: "sg \<longrightarrow> CHR 0xFF \<notin> bytes_of sf"
    and p: "pending sf = s @ tail"
    and im: "in_macro ps \<noteq> 0"
    and ch: "curhook sf = h # hs" "susp h = Some s"
    and hit: "hook_1st_chars sf (first_byte s)"
    and nul: "NUL \<notin> set s" "NUL \<notin> set (hookesc sf)"
    and par: "\<not> prefix (hookesc sf) s" "\<not> prefix s (hookesc sf)"
    and lo: "sg \<longrightarrow> (of_char (first_byte s) :: int) < 128"
  shows "\<exists>sf'. ps_step sg ev ps =
            Inr (False, ps\<lparr>fs := (fs ps)\<lparr>files := sf' # rest\<rparr>, check_buf := s, match_buf := s,
                            suspension := suspension ps + 1, macro_buf := macro_buf ps @ s\<rparr>)
      \<and> pending sf' = tail \<and> \<not> eat_tail sf' \<and> sf_cfg sf' = sf_cfg sf
      \<and> bytes_of sf' \<subseteq> bytes_of sf"
proof -
  obtain sf3 where a: "pending sf3 = s @ tail" "\<not> eat_tail sf3" "sf_cfg sf3 = sf_cfg sf"
      "bytes_of sf3 \<subseteq> bytes_of sf"
      "ps_step sg ev ps =
          ps_hooksusp_seq sg ev
            (ps\<lparr>match_buf := hookesc sf, check_buf := take (length (hookesc sf)) (s @ tail),
                fs := (fs ps)\<lparr>files := sf3 # rest\<rparr>\<rparr>)"
    using ps_step_token [OF top asc p hit nul(2) par lo, of ev] by blast
  let ?ps3 = "ps\<lparr>match_buf := hookesc sf, check_buf := take (length (hookesc sf)) (s @ tail),
                fs := (fs ps)\<lparr>files := sf3 # rest\<rparr>\<rparr>"
  have top3: "files (fs ?ps3) = sf3 # rest"
    by simp
  have sne: "s \<noteq> []"
    using par(2) by auto
  have ch3: "curhook sf3 = h # hs"
    using sf_cfg_fields(2) [OF a(3)] ch(1) by simp
  obtain sf4 where c: "ps_check sg ?ps3 s True =
            Inr (True, ?ps3\<lparr>match_buf := s, check_buf := s,
                            fs := (fs ?ps3)\<lparr>files := sf4 # rest\<rparr>\<rparr>)"
      "pending sf4 = tail" "\<not> eat_tail sf4" "sf_cfg sf4 = sf_cfg sf3"
      "bytes_of sf4 \<subseteq> bytes_of sf3"
    using ps_check_hit [OF top3 no_ff_subset [OF asc a(4)] nul(1) a(1) sne] by blast
  have ch4: "curhook sf4 = h # hs"
    using sf_cfg_fields(2) [OF c(4)] ch3 by simp
  have cs: "ps_check_hooksusp sg ?ps3 =
            Inr (True, ps\<lparr>match_buf := s, check_buf := s,
                           fs := (fs ps)\<lparr>files := sf4 # rest\<rparr>\<rparr>)"
    using c(1) ch3 ch(2)
    by (simp add: ps_check_hooksusp_def ps_has_file_def ps_current_hooksusp_def
          ps_current_hook_def)
  have "ps_hooksusp_seq sg ev ?ps3 =
            Inr (False, ps\<lparr>fs := (fs ps)\<lparr>files := sf4 # rest\<rparr>, check_buf := s, match_buf := s,
                            suspension := suspension ps + 1, macro_buf := macro_buf ps @ s\<rparr>)"
    using im ch4 ch(2) nul(1)
    by (simp add: ps_hooksusp_seq_def cs Let_def ps_current_hooksusp_def ps_current_hook_def
          ps_collect_str_def cstr_no_NUL del: take_append)
  then show ?thesis
    using a(3-5) c(2-5) by (intro exI [of _ sf4]) auto
qed

lemma ps_step_end:
  assumes top: "files (fs ps) = sf # rest"
    and asc: "sg \<longrightarrow> CHR 0xFF \<notin> bytes_of sf"
    and p: "pending sf = e @ tail"
    and im: "in_macro ps \<noteq> 0"
    and ch: "curhook sf = h # hs" "susp h = Some s" "hend h = e"
    and hit: "hook_1st_chars sf (first_byte e)"
    and nul: "NUL \<notin> set s" "NUL \<notin> set e" "NUL \<notin> set (hookesc sf)"
    and par: "\<not> prefix (hookesc sf) e" "\<not> prefix e (hookesc sf)"
      "\<not> prefix s e" "\<not> prefix e s"
    and lo: "sg \<longrightarrow> (of_char (first_byte e) :: int) < 128"
  shows "\<exists>sf'. ps_step sg ev ps =
           (if suspension ps = 0
            then ps_process_hook_end_seq sg ev
                   (ps\<lparr>fs := (fs ps)\<lparr>files := sf' # rest\<rparr>, check_buf := e, match_buf := e\<rparr>)
            else Inr (False, ps\<lparr>fs := (fs ps)\<lparr>files := sf' # rest\<rparr>, check_buf := e,
                                 match_buf := e, suspension := suspension ps - 1,
                                 macro_buf := macro_buf ps @ e\<rparr>))
      \<and> pending sf' = tail \<and> \<not> eat_tail sf' \<and> sf_cfg sf' = sf_cfg sf
      \<and> bytes_of sf' \<subseteq> bytes_of sf"
proof -
  obtain sf3 where a: "pending sf3 = e @ tail" "\<not> eat_tail sf3" "sf_cfg sf3 = sf_cfg sf"
      "bytes_of sf3 \<subseteq> bytes_of sf"
      "ps_step sg ev ps =
          ps_hooksusp_seq sg ev
            (ps\<lparr>match_buf := hookesc sf, check_buf := take (length (hookesc sf)) (e @ tail),
                fs := (fs ps)\<lparr>files := sf3 # rest\<rparr>\<rparr>)"
    using ps_step_token [OF top asc p hit nul(3) par(1,2) lo, of ev] by blast
  let ?ps3 = "ps\<lparr>match_buf := hookesc sf, check_buf := take (length (hookesc sf)) (e @ tail),
                fs := (fs ps)\<lparr>files := sf3 # rest\<rparr>\<rparr>"
  have top3: "files (fs ?ps3) = sf3 # rest"
    by simp
  have ene: "e \<noteq> []"
    using par(2) by auto
  have ch3: "curhook sf3 = h # hs"
    using sf_cfg_fields(2) [OF a(3)] ch(1) by simp
  have asc3: "sg \<longrightarrow> CHR 0xFF \<notin> bytes_of sf3"
    using no_ff_subset [OF asc a(4)] .
  obtain sf4 where c: "ps_check sg ?ps3 s True =
            Inr (False, ?ps3\<lparr>match_buf := s, check_buf := take (length s) (e @ tail),
                             fs := (fs ?ps3)\<lparr>files := sf4 # rest\<rparr>\<rparr>)"
      "pending sf4 = e @ tail" "\<not> eat_tail sf4" "sf_cfg sf4 = sf_cfg sf3"
      "bytes_of sf4 \<subseteq> bytes_of sf3"
    using ps_check_miss [OF top3 asc3 nul(1) a(1) par(3,4)] by blast
  let ?ps4 = "ps\<lparr>match_buf := s, check_buf := take (length s) (e @ tail),
                fs := (fs ps)\<lparr>files := sf4 # rest\<rparr>\<rparr>"
  have cs: "ps_check_hooksusp sg ?ps3 = Inr (False, ?ps4)"
    using c(1) ch3 ch(2)
    by (simp add: ps_check_hooksusp_def ps_has_file_def ps_current_hooksusp_def
          ps_current_hook_def)
  have s1: "ps_hooksusp_seq sg ev ?ps3 = ps_hookend_seq sg ev ?ps4"
    using im by (simp add: ps_hooksusp_seq_def cs del: take_append)
  have top4: "files (fs ?ps4) = sf4 # rest"
    by simp
  have ch4: "curhook sf4 = h # hs"
    using sf_cfg_fields(2) [OF c(4)] ch3 by simp
  have asc4: "sg \<longrightarrow> CHR 0xFF \<notin> bytes_of sf4"
    using no_ff_subset [OF asc3 c(5)] .
  obtain sf5 where d: "ps_check sg ?ps4 e True =
            Inr (True, ?ps4\<lparr>match_buf := e, check_buf := e,
                            fs := (fs ?ps4)\<lparr>files := sf5 # rest\<rparr>\<rparr>)"
      "pending sf5 = tail" "\<not> eat_tail sf5" "sf_cfg sf5 = sf_cfg sf4"
      "bytes_of sf5 \<subseteq> bytes_of sf4"
    using ps_check_hit [OF top4 asc4 nul(2) c(2) ene] by blast
  let ?ps5 = "ps\<lparr>fs := (fs ps)\<lparr>files := sf5 # rest\<rparr>, check_buf := e, match_buf := e\<rparr>"
  have ce: "ps_check_hookend sg ?ps4 = Inr (True, ?ps5)"
    using d(1) ch4 ch(3)
    by (simp add: ps_check_hookend_def ps_has_file_def ps_current_hookend_def
          ps_current_hook_def)
  have ch5: "curhook sf5 = h # hs"
    using sf_cfg_fields(2) [OF d(4)] ch4 by simp
  have "ps_hookend_seq sg ev ?ps4 =
           (if suspension ps = 0
            then ps_process_hook_end_seq sg ev ?ps5
            else Inr (False, ps\<lparr>fs := (fs ps)\<lparr>files := sf5 # rest\<rparr>, check_buf := e,
                                 match_buf := e, suspension := suspension ps - 1,
                                 macro_buf := macro_buf ps @ e\<rparr>))"
    using im ch5 ch(3) nul(2)
    by (simp add: ps_hookend_seq_def ce Let_def ps_current_hookend_def ps_current_hook_def
          ps_collect_str_def cstr_no_NUL del: take_append)
  then show ?thesis
    using a(3-5) c(4,5) d(2-5) s1 by (intro exI [of _ sf5]) auto
qed


text \<open>Runs of suspension strings and of hook-ends, by induction on their number.\<close>

lemma ps_loop_round:
  "ps_step sg ev ps = Inr (False, ps1) \<Longrightarrow> ps_loop (Suc n + k) sg ev ps = ps_loop (n + k) sg ev ps1"
  by simp

lemma susp_run:
  assumes "files (fs ps) = sf # rest"
    and "sg \<longrightarrow> CHR 0xFF \<notin> bytes_of sf"
    and "pending sf = concat (replicate n s) @ tail"
    and "in_macro ps \<noteq> 0"
    and "sf_cfg sf = cfg"
    and ch: "curhook cfg = h # hs" "susp h = Some s"
    and hit: "hook_1st_chars cfg (first_byte s)"
    and nul: "NUL \<notin> set s" "NUL \<notin> set (hookesc cfg)"
    and par: "\<not> prefix (hookesc cfg) s" "\<not> prefix s (hookesc cfg)"
    and lo: "sg \<longrightarrow> (of_char (first_byte s) :: int) < 128"
  shows "\<exists>sf1 C M.
           (\<forall>k. ps_loop (n + k) sg ev ps =
                ps_loop k sg ev
                  (ps\<lparr>fs := (fs ps)\<lparr>files := sf1 # rest\<rparr>, check_buf := C, match_buf := M,
                      suspension := suspension ps + int n,
                      macro_buf := macro_buf ps @ concat (replicate n s)\<rparr>))
         \<and> pending sf1 = tail \<and> sf_cfg sf1 = cfg \<and> bytes_of sf1 \<subseteq> bytes_of sf"
  using assms(1-5)
proof (induction n arbitrary: ps sf)
  case 0
  have "ps\<lparr>fs := (fs ps)\<lparr>files := sf # rest\<rparr>, check_buf := check_buf ps,
           match_buf := match_buf ps, suspension := suspension ps + int 0,
           macro_buf := macro_buf ps @ concat (replicate 0 s)\<rparr> = ps"
    using "0.prems"(1) by simp
  then show ?case
    using "0.prems"(3,5)
    by (intro exI [of _ sf] exI [of _ "check_buf ps"] exI [of _ "match_buf ps"]) simp
next
  case (Suc n)
  have cf: "curhook sf = curhook cfg" "hook_1st_chars sf = hook_1st_chars cfg"
      "hookesc sf = hookesc cfg"
    using Suc.prems(5) by (auto simp: sf_cfg_def)
  have p: "pending sf = s @ (concat (replicate n s) @ tail)"
    using Suc.prems(3) by simp
  obtain sfA where a: "ps_step sg ev ps =
            Inr (False, ps\<lparr>fs := (fs ps)\<lparr>files := sfA # rest\<rparr>, check_buf := s, match_buf := s,
                            suspension := suspension ps + 1, macro_buf := macro_buf ps @ s\<rparr>)"
      "pending sfA = concat (replicate n s) @ tail" "sf_cfg sfA = sf_cfg sf"
      "bytes_of sfA \<subseteq> bytes_of sf"
    using ps_step_susp [OF Suc.prems(1,2) p Suc.prems(4), of h hs ev] ch hit nul par lo
    by (auto simp: cf)
  let ?psA = "ps\<lparr>fs := (fs ps)\<lparr>files := sfA # rest\<rparr>, check_buf := s, match_buf := s,
                 suspension := suspension ps + 1, macro_buf := macro_buf ps @ s\<rparr>"
  have topA: "files (fs ?psA) = sfA # rest" and imA: "in_macro ?psA \<noteq> 0"
    using Suc.prems(4) by simp_all
  have cfgA: "sf_cfg sfA = cfg"
    using a(3) Suc.prems(5) by simp
  obtain sf1 C M where ih:
      "\<forall>k. ps_loop (n + k) sg ev ?psA =
           ps_loop k sg ev
             (?psA\<lparr>fs := (fs ?psA)\<lparr>files := sf1 # rest\<rparr>, check_buf := C, match_buf := M,
                  suspension := suspension ?psA + int n,
                  macro_buf := macro_buf ?psA @ concat (replicate n s)\<rparr>)"
      "pending sf1 = tail" "sf_cfg sf1 = cfg" "bytes_of sf1 \<subseteq> bytes_of sfA"
    using Suc.IH [OF topA no_ff_subset [OF Suc.prems(2) a(4)] a(2) imA cfgA] by blast
  have eq: "?psA\<lparr>fs := (fs ?psA)\<lparr>files := sf1 # rest\<rparr>, check_buf := C, match_buf := M,
                  suspension := suspension ?psA + int n,
                  macro_buf := macro_buf ?psA @ concat (replicate n s)\<rparr>
          = ps\<lparr>fs := (fs ps)\<lparr>files := sf1 # rest\<rparr>, check_buf := C, match_buf := M,
                  suspension := suspension ps + int (Suc n),
                  macro_buf := macro_buf ps @ concat (replicate (Suc n) s)\<rparr>"
    by simp
  have "\<forall>k. ps_loop (Suc n + k) sg ev ps =
           ps_loop k sg ev
             (ps\<lparr>fs := (fs ps)\<lparr>files := sf1 # rest\<rparr>, check_buf := C, match_buf := M,
                  suspension := suspension ps + int (Suc n),
                  macro_buf := macro_buf ps @ concat (replicate (Suc n) s)\<rparr>)"
    using ih(1) a(1) unfolding eq by simp
  then show ?case
    using ih(2-4) a(4) by (intro exI [of _ sf1] exI [of _ C] exI [of _ M]) auto
qed

lemma end_run:
  assumes "files (fs ps) = sf # rest"
    and "sg \<longrightarrow> CHR 0xFF \<notin> bytes_of sf"
    and "pending sf = concat (replicate n e) @ tail"
    and "in_macro ps \<noteq> 0"
    and "sf_cfg sf = cfg"
    and "int n \<le> suspension ps"
    and ch: "curhook cfg = h # hs" "susp h = Some s" "hend h = e"
    and hit: "hook_1st_chars cfg (first_byte e)"
    and nul: "NUL \<notin> set s" "NUL \<notin> set e" "NUL \<notin> set (hookesc cfg)"
    and par: "\<not> prefix (hookesc cfg) e" "\<not> prefix e (hookesc cfg)"
      "\<not> prefix s e" "\<not> prefix e s"
    and lo: "sg \<longrightarrow> (of_char (first_byte e) :: int) < 128"
  shows "\<exists>sf1 C M.
           (\<forall>k. ps_loop (n + k) sg ev ps =
                ps_loop k sg ev
                  (ps\<lparr>fs := (fs ps)\<lparr>files := sf1 # rest\<rparr>, check_buf := C, match_buf := M,
                      suspension := suspension ps - int n,
                      macro_buf := macro_buf ps @ concat (replicate n e)\<rparr>))
         \<and> pending sf1 = tail \<and> sf_cfg sf1 = cfg \<and> bytes_of sf1 \<subseteq> bytes_of sf"
  using assms(1-6)
proof (induction n arbitrary: ps sf)
  case 0
  have "ps\<lparr>fs := (fs ps)\<lparr>files := sf # rest\<rparr>, check_buf := check_buf ps,
           match_buf := match_buf ps, suspension := suspension ps - int 0,
           macro_buf := macro_buf ps @ concat (replicate 0 e)\<rparr> = ps"
    using "0.prems"(1) by simp
  then show ?case
    using "0.prems"(3,5)
    by (intro exI [of _ sf] exI [of _ "check_buf ps"] exI [of _ "match_buf ps"]) simp
next
  case (Suc n)
  have cf: "curhook sf = curhook cfg" "hook_1st_chars sf = hook_1st_chars cfg"
      "hookesc sf = hookesc cfg"
    using Suc.prems(5) by (auto simp: sf_cfg_def)
  have p: "pending sf = e @ (concat (replicate n e) @ tail)"
    using Suc.prems(3) by simp
  have pos: "suspension ps \<noteq> 0"
    using Suc.prems(6) by simp
  have "\<exists>sf'. ps_step sg ev ps =
           (if suspension ps = 0
            then ps_process_hook_end_seq sg ev
                   (ps\<lparr>fs := (fs ps)\<lparr>files := sf' # rest\<rparr>, check_buf := e, match_buf := e\<rparr>)
            else Inr (False, ps\<lparr>fs := (fs ps)\<lparr>files := sf' # rest\<rparr>, check_buf := e,
                                 match_buf := e, suspension := suspension ps - 1,
                                 macro_buf := macro_buf ps @ e\<rparr>))
      \<and> pending sf' = concat (replicate n e) @ tail \<and> \<not> eat_tail sf' \<and> sf_cfg sf' = sf_cfg sf
      \<and> bytes_of sf' \<subseteq> bytes_of sf"
    using ps_step_end [OF Suc.prems(1,2) p Suc.prems(4), of h hs s ev] ch hit nul par lo
    by (simp add: cf)
  then obtain sfA where a: "ps_step sg ev ps =
            Inr (False, ps\<lparr>fs := (fs ps)\<lparr>files := sfA # rest\<rparr>, check_buf := e, match_buf := e,
                            suspension := suspension ps - 1, macro_buf := macro_buf ps @ e\<rparr>)"
      "pending sfA = concat (replicate n e) @ tail" "sf_cfg sfA = sf_cfg sf"
      "bytes_of sfA \<subseteq> bytes_of sf"
    using pos by auto
  let ?psA = "ps\<lparr>fs := (fs ps)\<lparr>files := sfA # rest\<rparr>, check_buf := e, match_buf := e,
                 suspension := suspension ps - 1, macro_buf := macro_buf ps @ e\<rparr>"
  have topA: "files (fs ?psA) = sfA # rest" and imA: "in_macro ?psA \<noteq> 0"
    and suA: "int n \<le> suspension ?psA"
    using Suc.prems(4,6) by simp_all
  have cfgA: "sf_cfg sfA = cfg"
    using a(3) Suc.prems(5) by simp
  obtain sf1 C M where ih:
      "\<forall>k. ps_loop (n + k) sg ev ?psA =
           ps_loop k sg ev
             (?psA\<lparr>fs := (fs ?psA)\<lparr>files := sf1 # rest\<rparr>, check_buf := C, match_buf := M,
                  suspension := suspension ?psA - int n,
                  macro_buf := macro_buf ?psA @ concat (replicate n e)\<rparr>)"
      "pending sf1 = tail" "sf_cfg sf1 = cfg" "bytes_of sf1 \<subseteq> bytes_of sfA"
    using Suc.IH [OF topA no_ff_subset [OF Suc.prems(2) a(4)] a(2) imA cfgA suA] by blast
  have eq: "?psA\<lparr>fs := (fs ?psA)\<lparr>files := sf1 # rest\<rparr>, check_buf := C, match_buf := M,
                  suspension := suspension ?psA - int n,
                  macro_buf := macro_buf ?psA @ concat (replicate n e)\<rparr>
          = ps\<lparr>fs := (fs ps)\<lparr>files := sf1 # rest\<rparr>, check_buf := C, match_buf := M,
                  suspension := suspension ps - int (Suc n),
                  macro_buf := macro_buf ps @ concat (replicate (Suc n) e)\<rparr>"
    by simp
  have "\<forall>k. ps_loop (Suc n + k) sg ev ps =
           ps_loop k sg ev
             (ps\<lparr>fs := (fs ps)\<lparr>files := sf1 # rest\<rparr>, check_buf := C, match_buf := M,
                  suspension := suspension ps - int (Suc n),
                  macro_buf := macro_buf ps @ concat (replicate (Suc n) e)\<rparr>)"
    using ih(1) a(1) unfolding eq by simp
  then show ?case
    using ih(2-4) a(4) by (intro exI [of _ sf1] exI [of _ C] exI [of _ M]) auto
qed


text \<open>
  The probes for the suspension string and for the hook-end, whatever the input: a match
  leaves the top file on top with its configuration, so the current hook is the same
  after it.
\<close>

lemma sf_fetch_cfg: "sf_cfg (snd (sf_fetch sg sf)) = sf_cfg sf"
  by (simp add: sf_fetch_def sf_cfg_def Let_def split: list.splits)

lemma sf_get_cfg: "sf_cfg (snd (sf_get sg sf)) = sf_cfg sf"
proof (cases "eat_tail sf")
  case False
  then show ?thesis
    by (simp add: sf_get_no_eat sf_fetch_cfg)
next
  case True
  obtain r sf1 where f: "sf_fetch sg sf = (r, sf1)"
    by (cases "sf_fetch sg sf") auto
  have c1: "sf_cfg sf1 = sf_cfg sf"
    using sf_fetch_cfg [of sg sf] f by simp
  have "sf_cfg (snd (sf_fetch sg (sf1\<lparr>eat_tail := False\<rparr>))) = sf_cfg sf"
    using c1 by (simp add: sf_fetch_cfg sf_cfg_eat_tail)
  then show ?thesis
    using True f c1 by (simp add: sf_get_eat sf_cfg_eat_tail)
qed

lemma fs_get_n_loop_keeps_top:
  "files fk = sf # rest \<Longrightarrow>
   \<exists>sf'. files (snd (fs_get_n_loop sg fk n acc)) = sf' # rest \<and> sf_cfg sf' = sf_cfg sf"
proof (induction n arbitrary: fk sf acc)
  case 0
  then show ?case by simp
next
  case (Suc n)
  obtain r sf1 where g: "sf_get sg sf = (r, sf1)"
    by (cases "sf_get sg sf") auto
  have c1: "sf_cfg sf1 = sf_cfg sf"
    using sf_get_cfg [of sg sf] g by simp
  have "\<exists>sf'. files (snd (fs_get_n_loop sg (fk\<lparr>files := sf1 # rest\<rparr>) n (acc @ [int_to_gchar r])))
            = sf' # rest \<and> sf_cfg sf' = sf_cfg sf1"
    by (rule Suc.IH) simp
  then show ?case
    using Suc.prems g c1 by (auto simp: fs_get_def)
qed

lemma ps_check_match_keeps_top:
  assumes "ps_check sg ps m True = Inr (True, ps')" and "files (fs ps) = sf # rest"
  shows "\<exists>sf'. files (fs ps') = sf' # rest \<and> sf_cfg sf' = sf_cfg sf"
proof -
  obtain input fk1 where g: "fs_get_n sg (fs ps) (strlen m) = (input, fk1)"
    by (cases "fs_get_n sg (fs ps) (strlen m)") auto
  have "fs ps' = fk1"
    using assms(1) g
    by (auto simp: ps_check_def Let_def split: if_splits sum.splits)
  moreover have "\<exists>sf'. files fk1 = sf' # rest \<and> sf_cfg sf' = sf_cfg sf"
    using fs_get_n_loop_keeps_top [OF assms(2), of sg "strlen m" "[]"] g
    by (simp add: fs_get_n_def)
  ultimately show ?thesis by simp
qed

lemma ps_current_hook_top:
  assumes "files (fs ps) = sf # rest" and "files (fs ps') = sf' # rest'"
    and "sf_cfg sf' = sf_cfg sf" and "ps_current_hook ps = Inr h"
  shows "ps_current_hook ps' = Inr h"
  using assms sf_cfg_fields(2) [OF assms(3)]
  by (auto simp: ps_current_hook_def split: list.splits)

lemma ps_check_hooksusp_keeps:
  "ps_check_hooksusp sg ps = Inr (r, ps') \<Longrightarrow>
   ps' = ps\<lparr>fs := fs ps', check_buf := check_buf ps', match_buf := match_buf ps'\<rparr>"
  by (auto simp: ps_check_hooksusp_def split: if_splits sum.splits option.splits
      dest: ps_check_keeps)

lemma ps_check_hookend_keeps:
  "ps_check_hookend sg ps = Inr (r, ps') \<Longrightarrow>
   ps' = ps\<lparr>fs := fs ps', check_buf := check_buf ps', match_buf := match_buf ps'\<rparr>"
  by (auto simp: ps_check_hookend_def split: if_splits sum.splits dest: ps_check_keeps)

lemma ps_check_hooksusp_match:
  assumes "ps_check_hooksusp sg ps = Inr (True, ps')" and "ps_current_hooksusp ps = Inr (Some s)"
  shows "ps_current_hooksusp (ps'\<lparr>suspension := n\<rparr>) = Inr (Some s)"
proof -
  obtain sf rest where top: "files (fs ps) = sf # rest"
    using assms(1) by (cases "files (fs ps)") (auto simp: ps_check_hooksusp_def ps_has_file_def)
  obtain h where h: "ps_current_hook ps = Inr h" "susp h = Some s"
    using assms(2) by (cases "ps_current_hook ps") (auto simp: ps_current_hooksusp_def)
  have "ps_check sg ps s True = Inr (True, ps')"
    using assms top by (simp add: ps_check_hooksusp_def ps_has_file_def)
  then obtain sf' where t: "files (fs ps') = sf' # rest" "sf_cfg sf' = sf_cfg sf"
    using ps_check_match_keeps_top [OF _ top] by blast
  have "ps_current_hook (ps'\<lparr>suspension := n\<rparr>) = Inr h"
    using ps_current_hook_top [OF top _ t(2) h(1), of "ps'\<lparr>suspension := n\<rparr>" rest] t(1)
    by simp
  then show ?thesis
    using h(2) by (simp add: ps_current_hooksusp_def)
qed

lemma ps_check_hookend_match:
  assumes "ps_check_hookend sg ps = Inr (True, ps')" and "ps_current_hookend ps = Inr e"
  shows "ps_current_hookend (ps'\<lparr>suspension := n\<rparr>) = Inr e"
proof -
  obtain sf rest where top: "files (fs ps) = sf # rest"
    using assms(1) by (cases "files (fs ps)") (auto simp: ps_check_hookend_def ps_has_file_def)
  obtain h where h: "ps_current_hook ps = Inr h" "hend h = e"
    using assms(2) by (cases "ps_current_hook ps") (auto simp: ps_current_hookend_def)
  have "ps_check sg ps e True = Inr (True, ps')"
    using assms top by (simp add: ps_check_hookend_def ps_has_file_def)
  then obtain sf' where t: "files (fs ps') = sf' # rest" "sf_cfg sf' = sf_cfg sf"
    using ps_check_match_keeps_top [OF _ top] by blast
  have "ps_current_hook (ps'\<lparr>suspension := n\<rparr>) = Inr h"
    using ps_current_hook_top [OF top _ t(2) h(1), of "ps'\<lparr>suspension := n\<rparr>" rest] t(1)
    by simp
  then show ?thesis
    using h(2) by (simp add: ps_current_hookend_def)
qed

text \<open>
  A round of the main loop that reads a byte of the first-byte table, whose escape probe
  fails: it goes on with the suspension probe, with the counters and the macro body of
  the start of the round.
\<close>

lemma ps_step_to_susp_probe:
  assumes "ps_in sg ps = Inr (c, psa)" and "ps_check_hook psa c = Inr True"
    and "ps_put psa c = Inr psb" and "ps_check_hookesc sg psb = Inr (False, psc)"
  shows "ps_step sg ev ps = ps_hooksusp_seq sg ev psc"
    and "in_macro psc = in_macro ps" and "suspension psc = suspension ps"
    and "macro_buf psc = macro_buf ps"
proof -
  show "ps_step sg ev ps = ps_hooksusp_seq sg ev psc"
    using assms by (simp add: ps_step_def)
  have ka: "psa = ps\<lparr>fs := fs psa\<rparr>"
    using assms(1) ps_in_keeps by blast
  have kb: "psb = psa\<lparr>fs := fs psb\<rparr>"
    using assms(3) ps_put_keeps by blast
  have kc: "psc = psb\<lparr>fs := fs psc, check_buf := check_buf psc, match_buf := match_buf psc\<rparr>"
    using assms(4) ps_check_hookesc_keeps by blast
  have a: "in_macro psa = in_macro ps" "suspension psa = suspension ps"
      "macro_buf psa = macro_buf ps"
    by (subst ka, simp)+
  have b: "in_macro psb = in_macro psa" "suspension psb = suspension psa"
      "macro_buf psb = macro_buf psa"
    by (subst kb, simp)+
  have c: "in_macro psc = in_macro psb" "suspension psc = suspension psb"
      "macro_buf psc = macro_buf psb"
    by (subst kc, simp)+
  show "in_macro psc = in_macro ps" "suspension psc = suspension ps"
    "macro_buf psc = macro_buf ps"
    using a b c by simp_all
qed

lemma ps_hooksusp_seq_match:
  assumes "in_macro ps \<noteq> 0" and "ps_check_hooksusp sg ps = Inr (True, ps')"
    and "ps_current_hooksusp ps = Inr (Some s)"
  shows "ps_hooksusp_seq sg ev ps =
           Inr (False, ps'\<lparr>suspension := suspension ps + 1, macro_buf := macro_buf ps @ cstr s\<rparr>)"
proof -
  have k: "ps' = ps\<lparr>fs := fs ps', check_buf := check_buf ps', match_buf := match_buf ps'\<rparr>"
    using assms(2) ps_check_hooksusp_keeps by blast
  have f: "suspension ps' = suspension ps" "macro_buf ps' = macro_buf ps"
    by (subst k, simp)+
  show ?thesis
    using assms(1) ps_check_hooksusp_match [OF assms(2,3), of "suspension ps + 1"]
    by (simp add: ps_hooksusp_seq_def assms(2) Let_def f ps_collect_str_def)
qed

lemma ps_hooksusp_seq_end:
  assumes "in_macro ps \<noteq> 0" and "ps_check_hooksusp sg ps = Inr (False, ps1)"
    and "ps_check_hookend sg ps1 = Inr (True, ps')" and "ps_current_hookend ps1 = Inr e"
  shows "ps_hooksusp_seq sg ev ps =
           (if suspension ps = 0 then ps_process_hook_end_seq sg ev ps'
            else Inr (False, ps'\<lparr>suspension := suspension ps - 1,
                                 macro_buf := macro_buf ps @ cstr e\<rparr>))"
proof -
  have k1: "ps1 = ps\<lparr>fs := fs ps1, check_buf := check_buf ps1, match_buf := match_buf ps1\<rparr>"
    using assms(2) ps_check_hooksusp_keeps by blast
  have f1: "in_macro ps1 = in_macro ps" "suspension ps1 = suspension ps"
      "macro_buf ps1 = macro_buf ps"
    by (subst k1, simp)+
  have k: "ps' = ps1\<lparr>fs := fs ps', check_buf := check_buf ps', match_buf := match_buf ps'\<rparr>"
    using assms(3) ps_check_hookend_keeps by blast
  have f: "suspension ps' = suspension ps1" "macro_buf ps' = macro_buf ps1"
    by (subst k, simp)+
  have s1: "ps_hooksusp_seq sg ev ps = ps_hookend_seq sg ev ps1"
    using assms(1) by (simp add: ps_hooksusp_seq_def assms(2))
  show ?thesis
    using assms(1) ps_check_hookend_match [OF assms(3,4), of "suspension ps - 1"]
    by (simp add: s1 ps_hookend_seq_def assms(3) Let_def f f1 ps_collect_str_def)
qed


text \<open>
  The first-byte table after \<^verbatim>\<open>sf_multi_hook\<close>: the first bytes of the pair just added are
  marked. The two example files are what \<^verbatim>\<open>sf_multi_hook\<close> makes of the default file,
  taken inside a macro that their pair opened.
\<close>

lemma mark_1st_chars_marks:
  "mark_1st_chars sg ss t = Inr t' \<Longrightarrow> (\<forall>s\<in>set ss. t' (first_byte s)) \<and> (\<forall>c. t c \<longrightarrow> t' c)"
proof (induction ss arbitrary: t)
  case Nil
  then show ?case by simp
next
  case (Cons s ss)
  then have r: "mark_1st_chars sg ss (t(first_byte s := True)) = Inr t'"
    by (simp split: if_splits)
  show ?case
    using Cons.IH [OF r] by auto
qed

lemma sf_update_hook_cache_marks:
  assumes "sf_update_hook_cache sg sf = Inr sf'" and "multi sf = Multi_vec v"
  shows "hook_1st_chars sf' (first_byte (beg (last v)))"
    and "hook_1st_chars sf' (first_byte (hend (last v)))"
    and "susp (last v) = Some s \<Longrightarrow> hook_1st_chars sf' (first_byte s)"
proof -
  obtain t where t: "mark_1st_chars sg
                        ([beg (last v), hend (last v)] @
                         (case susp (last v) of None \<Rightarrow> [] | Some s \<Rightarrow> [s]) @ [hookesc sf])
                        (hook_1st_chars sf) = Inr t"
      and sf': "hook_1st_chars sf' = t"
    using assms
    by (auto simp: sf_update_hook_cache_def Let_def split: if_splits sum.splits)
  show "hook_1st_chars sf' (first_byte (beg (last v)))"
    and "hook_1st_chars sf' (first_byte (hend (last v)))"
    and "susp (last v) = Some s \<Longrightarrow> hook_1st_chars sf' (first_byte s)"
    using mark_1st_chars_marks [OF t] by (auto simp: sf')
qed

lemma sf_multi_hook_marks:
  assumes "sf_multi_hook sg sf b e su = Inr sf'"
  shows "hook_1st_chars sf' (first_byte (cstr b))"
    and "hook_1st_chars sf' (first_byte (cstr e))"
    and "su = Some s \<Longrightarrow> hook_1st_chars sf' (first_byte (cstr s))"
proof -
  obtain sf1 v where u: "sf_update_hook_cache sg sf1 = Inr sf'"
      and m: "multi sf1 = Multi_vec (v @ [\<lparr>beg = cstr b, hend = cstr e, susp = map_option cstr su\<rparr>])"
    using assms
    by (auto simp: sf_multi_hook_def Let_def split: if_splits multi_ptr.splits)
  show "hook_1st_chars sf' (first_byte (cstr b))"
    and "hook_1st_chars sf' (first_byte (cstr e))"
    and "su = Some s \<Longrightarrow> hook_1st_chars sf' (first_byte (cstr s))"
    using sf_update_hook_cache_marks [OF u m] by simp_all
qed

lemma hooked_file_built:
  "sf_multi_hook sg (plain_file bytes) ''$('' '')'' (Some ''('')
     = Inr ((hooked_file paren_hook bytes)\<lparr>macro := False, curhook := []\<rparr>)"
  "sf_multi_hook sg (plain_file bytes) ''<%'' ''%>'' (Some ''%'')
     = Inr ((hooked_file percent_hook bytes)\<lparr>macro := False, curhook := []\<rparr>)"
  by (auto simp: hooked_file_def paren_hook_def percent_hook_def cfg_eval first_byte_def
        fun_eq_iff)


text \<open>
  The whole run: \<open>n\<close> suspension strings, \<open>n\<close> hook-ends and one more hook-end, read from
  \<^verbatim>\<open>suspension\<close> zero.
\<close>

lemma suspension_run:
  assumes top: "files (fs ps) = sf # rest"
    and im: "in_macro ps \<noteq> 0"
    and z: "suspension ps = 0"
    and ch: "curhook sf = h # hs" "susp h = Some s" "hend h = e"
    and hit: "hook_1st_chars sf (first_byte s)" "hook_1st_chars sf (first_byte e)"
    and nul: "NUL \<notin> set s" "NUL \<notin> set e" "NUL \<notin> set (hookesc sf)"
    and par: "\<not> prefix (hookesc sf) s" "\<not> prefix s (hookesc sf)"
      "\<not> prefix (hookesc sf) e" "\<not> prefix e (hookesc sf)"
      "\<not> prefix s e" "\<not> prefix e s"
    and asc: "sg \<longrightarrow> CHR 0xFF \<notin> bytes_of sf"
    and lo: "sg \<longrightarrow> (of_char (first_byte s) :: int) < 128"
      "sg \<longrightarrow> (of_char (first_byte e) :: int) < 128"
    and p: "pending sf = concat (replicate n s) @ concat (replicate n e) @ e @ tail"
  shows "\<exists>sf1 sf2 C M.
            (\<forall>k. ps_loop (2 * n + k) sg ev ps =
                 ps_loop k sg ev
                   (ps\<lparr>fs := (fs ps)\<lparr>files := sf1 # rest\<rparr>, check_buf := C, match_buf := M,
                       suspension := 0,
                       macro_buf := macro_buf ps @ concat (replicate n s)
                                      @ concat (replicate n e)\<rparr>))
            \<and> pending sf1 = e @ tail \<and> sf_cfg sf1 = sf_cfg sf
            \<and> ps_step sg ev
                  (ps\<lparr>fs := (fs ps)\<lparr>files := sf1 # rest\<rparr>, check_buf := C, match_buf := M,
                      suspension := 0,
                      macro_buf := macro_buf ps @ concat (replicate n s)
                                     @ concat (replicate n e)\<rparr>)
                = ps_process_hook_end_seq sg ev
                    (ps\<lparr>fs := (fs ps)\<lparr>files := sf2 # rest\<rparr>, check_buf := e, match_buf := e,
                        suspension := 0,
                        macro_buf := macro_buf ps @ concat (replicate n s)
                                       @ concat (replicate n e)\<rparr>)
            \<and> pending sf2 = tail \<and> sf_cfg sf2 = sf_cfg sf"
proof -
  let ?cfg = "sf_cfg sf"
  have cf: "curhook ?cfg = h # hs" "hook_1st_chars ?cfg = hook_1st_chars sf"
      "hookesc ?cfg = hookesc sf"
    using ch(1) by (simp_all add: sf_cfg_def)
  have hs: "hook_1st_chars ?cfg (first_byte s)" and he: "hook_1st_chars ?cfg (first_byte e)"
    using hit by (simp_all add: cf(2))
  have parc: "\<not> prefix (hookesc ?cfg) s" "\<not> prefix s (hookesc ?cfg)"
      "\<not> prefix (hookesc ?cfg) e" "\<not> prefix e (hookesc ?cfg)"
    and nulc: "NUL \<notin> set (hookesc ?cfg)"
    using par(1-4) nul(3) by (simp_all add: cf(3))
  obtain sfA CA MA where a:
      "\<forall>k. ps_loop (n + k) sg ev ps =
           ps_loop k sg ev
             (ps\<lparr>fs := (fs ps)\<lparr>files := sfA # rest\<rparr>, check_buf := CA, match_buf := MA,
                 suspension := suspension ps + int n,
                 macro_buf := macro_buf ps @ concat (replicate n s)\<rparr>)"
      "pending sfA = concat (replicate n e) @ e @ tail" "sf_cfg sfA = ?cfg"
      "bytes_of sfA \<subseteq> bytes_of sf"
    using susp_run [OF top asc p im refl cf(1) ch(2) hs nul(1) nulc parc(1,2) lo(1), of ev]
    by blast
  let ?psA = "ps\<lparr>fs := (fs ps)\<lparr>files := sfA # rest\<rparr>, check_buf := CA, match_buf := MA,
                 suspension := suspension ps + int n,
                 macro_buf := macro_buf ps @ concat (replicate n s)\<rparr>"
  have topA: "files (fs ?psA) = sfA # rest" and imA: "in_macro ?psA \<noteq> 0"
    and suA: "int n \<le> suspension ?psA"
    using im z by simp_all
  have ascA: "sg \<longrightarrow> CHR 0xFF \<notin> bytes_of sfA"
    using no_ff_subset [OF asc a(4)] .
  obtain sfB CB MB where b:
      "\<forall>k. ps_loop (n + k) sg ev ?psA =
           ps_loop k sg ev
             (?psA\<lparr>fs := (fs ?psA)\<lparr>files := sfB # rest\<rparr>, check_buf := CB, match_buf := MB,
                 suspension := suspension ?psA - int n,
                 macro_buf := macro_buf ?psA @ concat (replicate n e)\<rparr>)"
      "pending sfB = e @ tail" "sf_cfg sfB = ?cfg"
      "bytes_of sfB \<subseteq> bytes_of sfA"
    using end_run [OF topA ascA a(2) imA a(3) suA cf(1) ch(2,3) he nul(1,2) nulc
        parc(3,4) par(5,6) lo(2), of ev]
    by blast
  let ?psB = "ps\<lparr>fs := (fs ps)\<lparr>files := sfB # rest\<rparr>, check_buf := CB, match_buf := MB,
                 suspension := 0,
                 macro_buf := macro_buf ps @ concat (replicate n s) @ concat (replicate n e)\<rparr>"
  have eqB: "?psA\<lparr>fs := (fs ?psA)\<lparr>files := sfB # rest\<rparr>, check_buf := CB, match_buf := MB,
                 suspension := suspension ?psA - int n,
                 macro_buf := macro_buf ?psA @ concat (replicate n e)\<rparr> = ?psB"
    using z by simp
  have loop: "\<forall>k. ps_loop (2 * n + k) sg ev ps = ps_loop k sg ev ?psB"
  proof
    fix k
    have "ps_loop (2 * n + k) sg ev ps = ps_loop (n + (n + k)) sg ev ps"
      by (simp add: mult_2 add.assoc del: ps_loop.simps)
    also have "\<dots> = ps_loop (n + k) sg ev ?psA"
      using a(1) by blast
    also have "\<dots> = ps_loop k sg ev ?psB"
      using b(1) unfolding eqB by blast
    finally show "ps_loop (2 * n + k) sg ev ps = ps_loop k sg ev ?psB" .
  qed
  have topB: "files (fs ?psB) = sfB # rest" and imB: "in_macro ?psB \<noteq> 0"
    and zB: "suspension ?psB = 0"
    using im by simp_all
  have ascB: "sg \<longrightarrow> CHR 0xFF \<notin> bytes_of sfB"
    using no_ff_subset [OF ascA b(4)] .
  have cfB: "curhook sfB = h # hs" "hook_1st_chars sfB (first_byte e)"
      "hookesc sfB = hookesc sf"
    using sf_cfg_fields [OF b(3)] ch(1) hit(2) by simp_all
  have escB: "NUL \<notin> set (hookesc sfB)" "\<not> prefix (hookesc sfB) e"
      "\<not> prefix e (hookesc sfB)"
    using nul(3) par(3,4) by (simp_all add: cfB(3))
  have "\<exists>sf'. ps_step sg ev ?psB =
         (if suspension ?psB = 0
          then ps_process_hook_end_seq sg ev
                 (?psB\<lparr>fs := (fs ?psB)\<lparr>files := sf' # rest\<rparr>, check_buf := e, match_buf := e\<rparr>)
          else Inr (False, ?psB\<lparr>fs := (fs ?psB)\<lparr>files := sf' # rest\<rparr>, check_buf := e,
                               match_buf := e, suspension := suspension ?psB - 1,
                               macro_buf := macro_buf ?psB @ e\<rparr>))
    \<and> pending sf' = tail \<and> \<not> eat_tail sf' \<and> sf_cfg sf' = sf_cfg sfB
    \<and> bytes_of sf' \<subseteq> bytes_of sfB"
    using ps_step_end [OF topB ascB b(2) imB cfB(1) ch(2,3) cfB(2) nul(1,2) escB par(5,6)
        lo(2), of ev] .
  then obtain sf2 where c0: "ps_step sg ev ?psB =
         (if suspension ?psB = 0
          then ps_process_hook_end_seq sg ev
                 (?psB\<lparr>fs := (fs ?psB)\<lparr>files := sf2 # rest\<rparr>, check_buf := e, match_buf := e\<rparr>)
          else Inr (False, ?psB\<lparr>fs := (fs ?psB)\<lparr>files := sf2 # rest\<rparr>, check_buf := e,
                               match_buf := e, suspension := suspension ?psB - 1,
                               macro_buf := macro_buf ?psB @ e\<rparr>))"
      and c: "pending sf2 = tail" "sf_cfg sf2 = sf_cfg sfB"
    by blast
  have eqC: "?psB\<lparr>fs := (fs ?psB)\<lparr>files := sf2 # rest\<rparr>, check_buf := e, match_buf := e\<rparr>
      = ps\<lparr>fs := (fs ps)\<lparr>files := sf2 # rest\<rparr>, check_buf := e, match_buf := e,
           suspension := 0,
           macro_buf := macro_buf ps @ concat (replicate n s) @ concat (replicate n e)\<rparr>"
    by simp
  have c1: "ps_step sg ev ?psB =
          ps_process_hook_end_seq sg ev
            (ps\<lparr>fs := (fs ps)\<lparr>files := sf2 # rest\<rparr>, check_buf := e, match_buf := e,
                suspension := 0,
                macro_buf := macro_buf ps @ concat (replicate n s) @ concat (replicate n e)\<rparr>)"
    by (simp only: c0 zB eqC simp_thms if_True)
  show ?thesis
    using loop b(2,3) c c1
    by (intro exI [of _ sfB] exI [of _ sf2] exI [of _ CB] exI [of _ MB]) simp
qed

lemmas round_eval =
  ps_step_def ps_in_def ps_put_def ps_check_hook_def ps_check_hookesc_def ps_check_def
  ps_hooksusp_seq_def ps_hookend_seq_def ps_hookbeg_seq_def ps_check_hooksusp_def
  ps_check_hookend_def ps_check_hookbeg_def ps_has_file_def ps_current_hooksusp_def
  ps_current_hookend_def ps_current_hook_def ps_process_non_hook_seq_def ps_collect_def
  ps_collect_str_def ps_upd_topfile_def
  fs_get_one_def fs_get_one_loop.simps fs_get_n_def fs_get_def fs_put_n_def fs_put_def
  fs_pop_file_def sf_get_no_eat sf_fetch_def sf_put_def g_strcmp0_def cstr_def strlen_def
  NUL_def first_byte_def Let_def

text \<open>
  Claim C3, as stated: inside a macro a match of the current hook's suspension string
  increments \<^verbatim>\<open>suspension\<close> and appends the string to the macro body; a match of its
  hook-end with \<^verbatim>\<open>suspension\<close> above zero decrements it and appends the hook-end, and with
  \<^verbatim>\<open>suspension\<close> zero it runs the hook-end sequence; hence \<open>n\<close> suspension strings followed
  by \<open>n\<close> hook-ends leave the hook-ends in the body, and the next hook-end ends the macro.

  The probes of a round come in a fixed order: escape, suspension string, hook-end. With
  the pair \<^verbatim>\<open><%\<close> ... \<^verbatim>\<open>%>\<close> and the suspension string \<^verbatim>\<open>%\<close> every hook-end begins with the
  suspension string, and the suspension probe takes it. On the input \<^verbatim>\<open>%\<close> \<^verbatim>\<open>%>\<close> \<^verbatim>\<open>%>\<close>
  (\<open>n = 1\<close>) inside the macro, from \<^verbatim>\<open>suspension\<close> zero, the three \<^verbatim>\<open>%\<close> raise \<^verbatim>\<open>suspension\<close>
  to 3, no hook-end is matched, and the loop stops at the end of the file with the error
  of an unfinished macro.
\<close>

theorem suspension_protocol_counterexample:
  "ps_loop (Suc (Suc (Suc (Suc (Suc (Suc 0)))))) True no_host
     (in_hooked_macro percent_hook ''f'' ''%%>%>'')
   = Some (Inl (Mucgly_error ''Got EOF within macro!'',
                (in_hooked_macro percent_hook ''f'' [])
                  \<lparr>fs := no_files, check_buf := ''%'', match_buf := ''%'', suspension := 3,
                   macro_buf := ''f%%>%>''\<rparr>))"
  by (simp add: round_eval in_hooked_macro_def hooked_file_def percent_hook_def parser_on_def
      one_file_def no_files_def plain_file_def byte_eval)


text \<open>
  Claim C3, amended. Take a round of the main loop inside a macro (\<^verbatim>\<open>in_macro\<close> not zero)
  that reads a byte of the first-byte table and whose escape probe fails. If its
  suspension probe matches, the round increments \<^verbatim>\<open>suspension\<close> and appends the current
  hook's suspension string to the macro body. If its suspension probe fails and its
  hook-end probe matches, the round decrements \<^verbatim>\<open>suspension\<close> and appends the current hook's
  hook-end to the body when \<^verbatim>\<open>suspension\<close> is not zero, and is the hook-end sequence when
  it is zero.

  Hence, for an escape, a suspension string \<open>s\<close> and a hook-end \<open>e\<close> none of which is a
  prefix of another, and a first-byte table that marks the first bytes of \<open>s\<close> and \<open>e\<close>
  (as it does when \<^verbatim>\<open>sf_multi_hook\<close> has added the pair): on \<open>n\<close> times \<open>s\<close>, \<open>n\<close> times \<open>e\<close>
  and one more \<open>e\<close>, from \<^verbatim>\<open>suspension\<close> zero, the first \<open>2 * n\<close> rounds of the loop append
  these \<open>n\<close> suspension strings and \<open>n\<close> hook-ends to the body and leave \<^verbatim>\<open>suspension\<close>
  zero, and the next round consumes the last \<open>e\<close> and runs the hook-end sequence on that
  body. Where plain \<^verbatim>\<open>char\<close> is signed this is stated for a file without the byte 0xFF
  and for \<open>s\<close> and \<open>e\<close> whose first byte is below 0x80.
\<close>

theorem suspension_protocol:
  "(in_macro ps \<noteq> 0 \<and> ps_in sg ps = Inr (c, psa) \<and> ps_check_hook psa c = Inr True
      \<and> ps_put psa c = Inr psb \<and> ps_check_hookesc sg psb = Inr (False, psc)
      \<and> ps_current_hooksusp psc = Inr (Some s0)
      \<and> ps_check_hooksusp sg psc = Inr (True, psd) \<longrightarrow>
      ps_step sg ev ps
        = Inr (False, psd\<lparr>suspension := suspension ps + 1,
                          macro_buf := macro_buf ps @ cstr s0\<rparr>))
   \<and> (in_macro ps \<noteq> 0 \<and> ps_in sg ps = Inr (c, psa) \<and> ps_check_hook psa c = Inr True
        \<and> ps_put psa c = Inr psb \<and> ps_check_hookesc sg psb = Inr (False, psc)
        \<and> ps_check_hooksusp sg psc = Inr (False, pse)
        \<and> ps_current_hookend pse = Inr e0
        \<and> ps_check_hookend sg pse = Inr (True, psf) \<longrightarrow>
      (suspension ps \<noteq> 0 \<longrightarrow>
         ps_step sg ev ps
           = Inr (False, psf\<lparr>suspension := suspension ps - 1,
                             macro_buf := macro_buf ps @ cstr e0\<rparr>))
      \<and> (suspension ps = 0 \<longrightarrow> ps_step sg ev ps = ps_process_hook_end_seq sg ev psf))
   \<and> (files (fs ps) = sf # rest \<and> in_macro ps \<noteq> 0 \<and> suspension ps = 0
        \<and> curhook sf = h # hs \<and> susp h = Some s \<and> hend h = e
        \<and> hook_1st_chars sf (first_byte s) \<and> hook_1st_chars sf (first_byte e)
        \<and> NUL \<notin> set s \<and> NUL \<notin> set e \<and> NUL \<notin> set (hookesc sf)
        \<and> \<not> prefix (hookesc sf) s \<and> \<not> prefix s (hookesc sf)
        \<and> \<not> prefix (hookesc sf) e \<and> \<not> prefix e (hookesc sf)
        \<and> \<not> prefix s e \<and> \<not> prefix e s
        \<and> (sg \<longrightarrow> CHR 0xFF \<notin> bytes_of sf \<and> (of_char (first_byte s) :: int) < 128
                   \<and> (of_char (first_byte e) :: int) < 128)
        \<and> pending sf = concat (replicate n s) @ concat (replicate n e) @ e @ tail \<longrightarrow>
      (\<exists>sf1 sf2 C M.
                    (\<forall>k. ps_loop (2 * n + k) sg ev ps =
                         ps_loop k sg ev
                           (ps\<lparr>fs := (fs ps)\<lparr>files := sf1 # rest\<rparr>, check_buf := C, match_buf := M,
                               suspension := 0,
                               macro_buf := macro_buf ps @ concat (replicate n s)
                                              @ concat (replicate n e)\<rparr>))
                    \<and> pending sf1 = e @ tail \<and> sf_cfg sf1 = sf_cfg sf
                    \<and> ps_step sg ev
                          (ps\<lparr>fs := (fs ps)\<lparr>files := sf1 # rest\<rparr>, check_buf := C, match_buf := M,
                              suspension := 0,
                              macro_buf := macro_buf ps @ concat (replicate n s)
                                             @ concat (replicate n e)\<rparr>)
                        = ps_process_hook_end_seq sg ev
                            (ps\<lparr>fs := (fs ps)\<lparr>files := sf2 # rest\<rparr>, check_buf := e, match_buf := e,
                                suspension := 0,
                                macro_buf := macro_buf ps @ concat (replicate n s)
                                               @ concat (replicate n e)\<rparr>)
                    \<and> pending sf2 = tail \<and> sf_cfg sf2 = sf_cfg sf))"
proof (intro conjI impI)
  assume a: "in_macro ps \<noteq> 0 \<and> ps_in sg ps = Inr (c, psa) \<and> ps_check_hook psa c = Inr True
      \<and> ps_put psa c = Inr psb \<and> ps_check_hookesc sg psb = Inr (False, psc)
      \<and> ps_current_hooksusp psc = Inr (Some s0)
      \<and> ps_check_hooksusp sg psc = Inr (True, psd)"
  then have f: "in_macro ps \<noteq> 0" "ps_in sg ps = Inr (c, psa)" "ps_check_hook psa c = Inr True"
      "ps_put psa c = Inr psb" "ps_check_hookesc sg psb = Inr (False, psc)"
      "ps_current_hooksusp psc = Inr (Some s0)" "ps_check_hooksusp sg psc = Inr (True, psd)"
    by blast+
  note r = ps_step_to_susp_probe [OF f(2-5)]
  have "in_macro psc \<noteq> 0"
    using f(1) r(2) by simp
  then have "ps_hooksusp_seq sg ev psc =
           Inr (False, psd\<lparr>suspension := suspension psc + 1,
                            macro_buf := macro_buf psc @ cstr s0\<rparr>)"
    using f(7,6) by (rule ps_hooksusp_seq_match)
  then show "ps_step sg ev ps
        = Inr (False, psd\<lparr>suspension := suspension ps + 1,
                          macro_buf := macro_buf ps @ cstr s0\<rparr>)"
    by (simp only: r)
next
  assume a: "in_macro ps \<noteq> 0 \<and> ps_in sg ps = Inr (c, psa) \<and> ps_check_hook psa c = Inr True
        \<and> ps_put psa c = Inr psb \<and> ps_check_hookesc sg psb = Inr (False, psc)
        \<and> ps_check_hooksusp sg psc = Inr (False, pse)
        \<and> ps_current_hookend pse = Inr e0
        \<and> ps_check_hookend sg pse = Inr (True, psf)"
  then have f: "in_macro ps \<noteq> 0" "ps_in sg ps = Inr (c, psa)" "ps_check_hook psa c = Inr True"
      "ps_put psa c = Inr psb" "ps_check_hookesc sg psb = Inr (False, psc)"
      "ps_check_hooksusp sg psc = Inr (False, pse)" "ps_current_hookend pse = Inr e0"
      "ps_check_hookend sg pse = Inr (True, psf)"
    by blast+
  note r = ps_step_to_susp_probe [OF f(2-5)]
  have "in_macro psc \<noteq> 0"
    using f(1) r(2) by simp
  then have q: "ps_hooksusp_seq sg ev psc =
           (if suspension psc = 0 then ps_process_hook_end_seq sg ev psf
            else Inr (False, psf\<lparr>suspension := suspension psc - 1,
                                 macro_buf := macro_buf psc @ cstr e0\<rparr>))"
    using f(6,8,7) by (rule ps_hooksusp_seq_end)
  {
    assume "suspension ps \<noteq> 0"
    then show "ps_step sg ev ps
           = Inr (False, psf\<lparr>suspension := suspension ps - 1,
                             macro_buf := macro_buf ps @ cstr e0\<rparr>)"
      using q by (simp add: r)
  }
  {
    assume "suspension ps = 0"
    then show "ps_step sg ev ps = ps_process_hook_end_seq sg ev psf"
      using q by (simp add: r)
  }
next
  assume a: "files (fs ps) = sf # rest \<and> in_macro ps \<noteq> 0 \<and> suspension ps = 0
        \<and> curhook sf = h # hs \<and> susp h = Some s \<and> hend h = e
        \<and> hook_1st_chars sf (first_byte s) \<and> hook_1st_chars sf (first_byte e)
        \<and> NUL \<notin> set s \<and> NUL \<notin> set e \<and> NUL \<notin> set (hookesc sf)
        \<and> \<not> prefix (hookesc sf) s \<and> \<not> prefix s (hookesc sf)
        \<and> \<not> prefix (hookesc sf) e \<and> \<not> prefix e (hookesc sf)
        \<and> \<not> prefix s e \<and> \<not> prefix e s
        \<and> (sg \<longrightarrow> CHR 0xFF \<notin> bytes_of sf \<and> (of_char (first_byte s) :: int) < 128
                   \<and> (of_char (first_byte e) :: int) < 128)
        \<and> pending sf = concat (replicate n s) @ concat (replicate n e) @ e @ tail"
  then have f: "files (fs ps) = sf # rest" "in_macro ps \<noteq> 0" "suspension ps = 0"
      "curhook sf = h # hs" "susp h = Some s" "hend h = e"
      "hook_1st_chars sf (first_byte s)" "hook_1st_chars sf (first_byte e)"
      "NUL \<notin> set s" "NUL \<notin> set e" "NUL \<notin> set (hookesc sf)"
      "\<not> prefix (hookesc sf) s" "\<not> prefix s (hookesc sf)"
      "\<not> prefix (hookesc sf) e" "\<not> prefix e (hookesc sf)"
      "\<not> prefix s e" "\<not> prefix e s"
      "sg \<longrightarrow> CHR 0xFF \<notin> bytes_of sf" "sg \<longrightarrow> (of_char (first_byte s) :: int) < 128"
      "sg \<longrightarrow> (of_char (first_byte e) :: int) < 128"
      "pending sf = concat (replicate n s) @ concat (replicate n e) @ e @ tail"
    by blast+
  show "\<exists>sf1 sf2 C M.
            (\<forall>k. ps_loop (2 * n + k) sg ev ps =
                 ps_loop k sg ev
                   (ps\<lparr>fs := (fs ps)\<lparr>files := sf1 # rest\<rparr>, check_buf := C, match_buf := M,
                       suspension := 0,
                       macro_buf := macro_buf ps @ concat (replicate n s)
                                      @ concat (replicate n e)\<rparr>))
            \<and> pending sf1 = e @ tail \<and> sf_cfg sf1 = sf_cfg sf
            \<and> ps_step sg ev
                  (ps\<lparr>fs := (fs ps)\<lparr>files := sf1 # rest\<rparr>, check_buf := C, match_buf := M,
                      suspension := 0,
                      macro_buf := macro_buf ps @ concat (replicate n s)
                                     @ concat (replicate n e)\<rparr>)
                = ps_process_hook_end_seq sg ev
                    (ps\<lparr>fs := (fs ps)\<lparr>files := sf2 # rest\<rparr>, check_buf := e, match_buf := e,
                        suspension := 0,
                        macro_buf := macro_buf ps @ concat (replicate n s)
                                       @ concat (replicate n e)\<rparr>)
            \<and> pending sf2 = tail \<and> sf_cfg sf2 = sf_cfg sf"
    by (rule suspension_run [OF f])
qed


theorem suspension_protocol_witness:
  "(\<exists>c psa psb psc psd.
       in_macro (in_hooked_macro paren_hook ''f'' ''())Z'') \<noteq> 0
     \<and> ps_in True (in_hooked_macro paren_hook ''f'' ''())Z'') = Inr (c, psa)
     \<and> ps_check_hook psa c = Inr True \<and> ps_put psa c = Inr psb
     \<and> ps_check_hookesc True psb = Inr (False, psc)
     \<and> ps_current_hooksusp psc = Inr (Some ''('')
     \<and> ps_check_hooksusp True psc = Inr (True, psd))
   \<and> ps_step True no_host (in_hooked_macro paren_hook ''f'' ''())Z'')
       = Inr (False, (in_hooked_macro paren_hook ''f('' [])
                       \<lparr>fs := one_file ((hooked_file paren_hook ''))Z'')\<lparr>column := 1\<rparr>),
                        check_buf := ''('', match_buf := ''('', suspension := 1\<rparr>)
   \<and> (\<exists>c psa psb psc pse psf.
         in_macro ((in_hooked_macro paren_hook ''f('' ''))Z'')\<lparr>suspension := 1\<rparr>) \<noteq> 0
       \<and> suspension ((in_hooked_macro paren_hook ''f('' ''))Z'')\<lparr>suspension := 1\<rparr>) \<noteq> 0
       \<and> ps_in True ((in_hooked_macro paren_hook ''f('' ''))Z'')\<lparr>suspension := 1\<rparr>) = Inr (c, psa)
       \<and> ps_check_hook psa c = Inr True \<and> ps_put psa c = Inr psb
       \<and> ps_check_hookesc True psb = Inr (False, psc)
       \<and> ps_check_hooksusp True psc = Inr (False, pse)
       \<and> ps_current_hookend pse = Inr '')''
       \<and> ps_check_hookend True pse = Inr (True, psf))
   \<and> ps_step True no_host ((in_hooked_macro paren_hook ''f('' ''))Z'')\<lparr>suspension := 1\<rparr>)
       = Inr (False, (in_hooked_macro paren_hook ''f()'' [])
                       \<lparr>fs := one_file ((hooked_file paren_hook '')Z'')\<lparr>column := 1\<rparr>),
                        check_buf := '')'', match_buf := '')''\<rparr>)
   \<and> (\<exists>sf1 sf2 C M.
         (\<forall>k. ps_loop (2 + k) True no_host (in_hooked_macro paren_hook ''f'' ''())Z'') =
              ps_loop k True no_host
                ((in_hooked_macro paren_hook ''f()'' [])
                   \<lparr>fs := \<lparr>files = [sf1], files_prev = []\<rparr>, check_buf := C, match_buf := M\<rparr>))
         \<and> pending sf1 = '')Z''
         \<and> ps_step True no_host
              ((in_hooked_macro paren_hook ''f()'' [])
                 \<lparr>fs := \<lparr>files = [sf1], files_prev = []\<rparr>, check_buf := C, match_buf := M\<rparr>)
           = ps_process_hook_end_seq True no_host
               ((in_hooked_macro paren_hook ''f()'' [])
                  \<lparr>fs := \<lparr>files = [sf2], files_prev = []\<rparr>, check_buf := '')'',
                   match_buf := '')''\<rparr>)
         \<and> pending sf2 = ''Z'')"
proof -
  note fixtures = in_hooked_macro_def hooked_file_def paren_hook_def parser_on_def one_file_def
    plain_file_def
  let ?P0 = "in_hooked_macro paren_hook ''f'' ''())Z''"
  let ?A0 = "?P0\<lparr>fs := one_file ((hooked_file paren_hook ''))Z'')\<lparr>column := 1\<rparr>)\<rparr>"
  let ?B0 = "?P0\<lparr>fs := one_file ((hooked_file paren_hook ''))Z'')\<lparr>buf := ''(''\<rparr>)\<rparr>"
  let ?C0 = "?B0\<lparr>check_buf := ''('', match_buf := [CHR 0x5C]\<rparr>"
  let ?D0 = "?A0\<lparr>check_buf := ''('', match_buf := ''(''\<rparr>"
  have im0: "in_macro ?P0 \<noteq> 0"
    by (simp add: in_hooked_macro_def)
  have i0: "ps_in True ?P0 = Inr (40, ?A0)"
    by (simp add: round_eval fixtures byte_eval)
  have h0: "ps_check_hook ?A0 40 = Inr True"
    by (simp add: round_eval fixtures byte_eval)
  have p0: "ps_put ?A0 40 = Inr ?B0"
    by (simp add: round_eval fixtures byte_eval)
  have e0: "ps_check_hookesc True ?B0 = Inr (False, ?C0)"
    by (simp add: round_eval fixtures byte_eval)
  have c0: "ps_current_hooksusp ?C0 = Inr (Some ''('')"
    by (simp add: round_eval fixtures)
  have m0: "ps_check_hooksusp True ?C0 = Inr (True, ?D0)"
    by (simp add: round_eval fixtures byte_eval)
  have all0: "in_macro ?P0 \<noteq> 0 \<and> ps_in True ?P0 = Inr (40, ?A0)
      \<and> ps_check_hook ?A0 40 = Inr True \<and> ps_put ?A0 40 = Inr ?B0
      \<and> ps_check_hookesc True ?B0 = Inr (False, ?C0)
      \<and> ps_current_hooksusp ?C0 = Inr (Some ''('')
      \<and> ps_check_hooksusp True ?C0 = Inr (True, ?D0)"
    using im0 i0 h0 p0 e0 c0 m0 by (intro conjI)
  have s0: "ps_step True no_host ?P0
        = Inr (False, ?D0\<lparr>suspension := suspension ?P0 + 1,
                          macro_buf := macro_buf ?P0 @ cstr ''(''\<rparr>)"
    using conjunct1 [OF suspension_protocol
        [where ps = ?P0 and sg = True and c = 40 and psa = ?A0 and psb = ?B0 and psc = ?C0
           and ?s0.0 = "''(''" and psd = ?D0 and ev = no_host]] all0
    by (rule mp)
  have r0: "?D0\<lparr>suspension := suspension ?P0 + 1, macro_buf := macro_buf ?P0 @ cstr ''(''\<rparr>
      = (in_hooked_macro paren_hook ''f('' [])
          \<lparr>fs := one_file ((hooked_file paren_hook ''))Z'')\<lparr>column := 1\<rparr>),
           check_buf := ''('', match_buf := ''('', suspension := 1\<rparr>"
    by (simp add: fixtures cstr_def NUL_def)
  have first_round: "\<exists>c psa psb psc psd.
       in_macro ?P0 \<noteq> 0 \<and> ps_in True ?P0 = Inr (c, psa)
     \<and> ps_check_hook psa c = Inr True \<and> ps_put psa c = Inr psb
     \<and> ps_check_hookesc True psb = Inr (False, psc)
     \<and> ps_current_hooksusp psc = Inr (Some ''('')
     \<and> ps_check_hooksusp True psc = Inr (True, psd)"
    using all0
    by (intro exI [of _ 40] exI [of _ ?A0] exI [of _ ?B0] exI [of _ ?C0] exI [of _ ?D0])

  let ?P1 = "(in_hooked_macro paren_hook ''f('' ''))Z'')\<lparr>suspension := 1\<rparr>"
  let ?A1 = "?P1\<lparr>fs := one_file ((hooked_file paren_hook '')Z'')\<lparr>column := 1\<rparr>)\<rparr>"
  let ?B1 = "?P1\<lparr>fs := one_file ((hooked_file paren_hook '')Z'')\<lparr>buf := '')''\<rparr>)\<rparr>"
  let ?C1 = "?B1\<lparr>check_buf := '')'', match_buf := [CHR 0x5C]\<rparr>"
  let ?E1 = "?B1\<lparr>check_buf := '')'', match_buf := ''(''\<rparr>"
  let ?F1 = "?A1\<lparr>check_buf := '')'', match_buf := '')''\<rparr>"
  have im1: "in_macro ?P1 \<noteq> 0" and su1: "suspension ?P1 \<noteq> 0"
    by (simp_all add: in_hooked_macro_def)
  have i1: "ps_in True ?P1 = Inr (41, ?A1)"
    by (simp add: round_eval fixtures byte_eval)
  have h1: "ps_check_hook ?A1 41 = Inr True"
    by (simp add: round_eval fixtures byte_eval)
  have p1: "ps_put ?A1 41 = Inr ?B1"
    by (simp add: round_eval fixtures byte_eval)
  have e1: "ps_check_hookesc True ?B1 = Inr (False, ?C1)"
    by (simp add: round_eval fixtures byte_eval)
  have n1: "ps_check_hooksusp True ?C1 = Inr (False, ?E1)"
    by (simp add: round_eval fixtures byte_eval)
  have c1: "ps_current_hookend ?E1 = Inr '')''"
    by (simp add: round_eval fixtures)
  have m1: "ps_check_hookend True ?E1 = Inr (True, ?F1)"
    by (simp add: round_eval fixtures byte_eval)
  have all1: "in_macro ?P1 \<noteq> 0 \<and> ps_in True ?P1 = Inr (41, ?A1)
      \<and> ps_check_hook ?A1 41 = Inr True \<and> ps_put ?A1 41 = Inr ?B1
      \<and> ps_check_hookesc True ?B1 = Inr (False, ?C1)
      \<and> ps_check_hooksusp True ?C1 = Inr (False, ?E1)
      \<and> ps_current_hookend ?E1 = Inr '')''
      \<and> ps_check_hookend True ?E1 = Inr (True, ?F1)"
    using im1 i1 h1 p1 e1 n1 c1 m1 by (intro conjI)
  have "(suspension ?P1 \<noteq> 0 \<longrightarrow>
         ps_step True no_host ?P1
           = Inr (False, ?F1\<lparr>suspension := suspension ?P1 - 1,
                             macro_buf := macro_buf ?P1 @ cstr '')''\<rparr>))
      \<and> (suspension ?P1 = 0 \<longrightarrow>
            ps_step True no_host ?P1 = ps_process_hook_end_seq True no_host ?F1)"
    using conjunct1 [OF conjunct2 [OF suspension_protocol
        [where ps = ?P1 and sg = True and c = 41 and psa = ?A1 and psb = ?B1 and psc = ?C1
           and pse = ?E1 and ?e0.0 = "'')''" and psf = ?F1 and ev = no_host]]] all1
    by (rule mp)
  then have s1: "ps_step True no_host ?P1
           = Inr (False, ?F1\<lparr>suspension := suspension ?P1 - 1,
                             macro_buf := macro_buf ?P1 @ cstr '')''\<rparr>)"
    using su1 by blast
  have r1: "?F1\<lparr>suspension := suspension ?P1 - 1, macro_buf := macro_buf ?P1 @ cstr '')''\<rparr>
      = (in_hooked_macro paren_hook ''f()'' [])
          \<lparr>fs := one_file ((hooked_file paren_hook '')Z'')\<lparr>column := 1\<rparr>),
           check_buf := '')'', match_buf := '')''\<rparr>"
    by (simp add: fixtures cstr_def NUL_def)
  have second_round: "\<exists>c psa psb psc pse psf.
         in_macro ?P1 \<noteq> 0 \<and> suspension ?P1 \<noteq> 0 \<and> ps_in True ?P1 = Inr (c, psa)
       \<and> ps_check_hook psa c = Inr True \<and> ps_put psa c = Inr psb
       \<and> ps_check_hookesc True psb = Inr (False, psc)
       \<and> ps_check_hooksusp True psc = Inr (False, pse)
       \<and> ps_current_hookend pse = Inr '')''
       \<and> ps_check_hookend True pse = Inr (True, psf)"
    using conjI [OF im1 conjI [OF su1 conjunct2 [OF all1]]]
    by (intro exI [of _ 41] exI [of _ ?A1] exI [of _ ?B1] exI [of _ ?C1] exI [of _ ?E1]
          exI [of _ ?F1])

  let ?sf = "hooked_file paren_hook ''())Z''"
  have hyp: "files (fs ?P0) = ?sf # [] \<and> in_macro ?P0 \<noteq> 0 \<and> suspension ?P0 = 0
        \<and> curhook ?sf = paren_hook # [] \<and> susp paren_hook = Some ''('' \<and> hend paren_hook = '')''
        \<and> hook_1st_chars ?sf (first_byte ''('') \<and> hook_1st_chars ?sf (first_byte '')'')
        \<and> NUL \<notin> set ''('' \<and> NUL \<notin> set '')'' \<and> NUL \<notin> set (hookesc ?sf)
        \<and> \<not> prefix (hookesc ?sf) ''('' \<and> \<not> prefix ''('' (hookesc ?sf)
        \<and> \<not> prefix (hookesc ?sf) '')'' \<and> \<not> prefix '')'' (hookesc ?sf)
        \<and> \<not> prefix ''('' '')'' \<and> \<not> prefix '')'' ''(''
        \<and> (True \<longrightarrow> CHR 0xFF \<notin> bytes_of ?sf \<and> (of_char (first_byte ''('') :: int) < 128
                   \<and> (of_char (first_byte '')'') :: int) < 128)
        \<and> pending ?sf = concat (replicate 1 ''('') @ concat (replicate 1 '')'') @ '')'' @ ''Z''"
    by (simp add: fixtures first_byte_def NUL_def bytes_of_def pending_def)
  note run = mp [OF conjunct2 [OF conjunct2 [OF suspension_protocol
        [where ps = ?P0 and sg = True and ev = no_host and sf = ?sf and rest = "[]"
           and h = paren_hook and hs = "[]" and s = "''(''" and e = "'')''" and n = 1
           and tail = "''Z''"]]] hyp]
  obtain sf1 sf2 C M where b:
      "\<forall>k. ps_loop (2 * 1 + k) True no_host ?P0 =
            ps_loop k True no_host
              (?P0\<lparr>fs := (fs ?P0)\<lparr>files := sf1 # []\<rparr>, check_buf := C, match_buf := M,
                  suspension := 0,
                  macro_buf := macro_buf ?P0 @ concat (replicate 1 ''('')
                                 @ concat (replicate 1 '')'')\<rparr>)"
      "pending sf1 = '')'' @ ''Z''"
      "ps_step True no_host
            (?P0\<lparr>fs := (fs ?P0)\<lparr>files := sf1 # []\<rparr>, check_buf := C, match_buf := M,
                suspension := 0,
                macro_buf := macro_buf ?P0 @ concat (replicate 1 ''('')
                               @ concat (replicate 1 '')'')\<rparr>)
         = ps_process_hook_end_seq True no_host
             (?P0\<lparr>fs := (fs ?P0)\<lparr>files := sf2 # []\<rparr>, check_buf := '')'',
                 match_buf := '')'', suspension := 0,
                 macro_buf := macro_buf ?P0 @ concat (replicate 1 ''('')
                                @ concat (replicate 1 '')'')\<rparr>)"
      "pending sf2 = ''Z''"
    using run by blast
  have st: "\<And>x c m. ?P0\<lparr>fs := (fs ?P0)\<lparr>files := x # []\<rparr>, check_buf := c, match_buf := m,
                suspension := 0,
                macro_buf := macro_buf ?P0 @ concat (replicate 1 ''('')
                               @ concat (replicate 1 '')'')\<rparr>
        = (in_hooked_macro paren_hook ''f()'' [])
            \<lparr>fs := \<lparr>files = [x], files_prev = []\<rparr>, check_buf := c, match_buf := m\<rparr>"
    by (simp add: in_hooked_macro_def parser_on_def one_file_def)
  have whole_run: "\<exists>sf1 sf2 C M.
         (\<forall>k. ps_loop (2 + k) True no_host ?P0 =
              ps_loop k True no_host
                ((in_hooked_macro paren_hook ''f()'' [])
                   \<lparr>fs := \<lparr>files = [sf1], files_prev = []\<rparr>, check_buf := C, match_buf := M\<rparr>))
         \<and> pending sf1 = '')Z''
         \<and> ps_step True no_host
              ((in_hooked_macro paren_hook ''f()'' [])
                 \<lparr>fs := \<lparr>files = [sf1], files_prev = []\<rparr>, check_buf := C, match_buf := M\<rparr>)
           = ps_process_hook_end_seq True no_host
               ((in_hooked_macro paren_hook ''f()'' [])
                  \<lparr>fs := \<lparr>files = [sf2], files_prev = []\<rparr>, check_buf := '')'',
                   match_buf := '')''\<rparr>)
         \<and> pending sf2 = ''Z''"
    using b unfolding st
    by (intro exI [of _ sf1] exI [of _ sf2] exI [of _ C] exI [of _ M])
       (simp del: ps_loop.simps)
  show ?thesis
    using first_round s0 [unfolded r0] second_round s1 [unfolded r1] whole_run
    by (intro conjI)
qed

end
